theory Spec2Isabelle
  imports Complex_Main "HOL-Library.Log_Nat"
begin

section \<open>Calendar dates\<close>

text \<open>
  The pricing code of \<^verbatim>\<open>main.py\<close> works on values of Python's \<^verbatim>\<open>datetime.date\<close>:
  a year in 1..9999, a month in 1..12 and a day that exists in that month. A date is
  modelled as the record of its three fields; \<open>valid_date\<close> says which records are
  dates that Python can hold. Dates compare as the triples (year, month, day).
\<close>

datatype error =
  TypeError
  | ValueError
  | OverflowError
  | HTTPException nat string

record date =
  year :: int
  month :: int
  day :: int

definition is_leap :: "int \<Rightarrow> bool" where
  "is_leap y = (y mod 4 = 0 \<and> (y mod 100 \<noteq> 0 \<or> y mod 400 = 0))"

definition days_in_month :: "int \<Rightarrow> int \<Rightarrow> int" where
  "days_in_month y m =
     (if m = 2 then (if is_leap y then 29 else 28)
      else if m = 4 \<or> m = 6 \<or> m = 9 \<or> m = 11 then 30
      else 31)"

definition valid_date :: "date \<Rightarrow> bool" where
  "valid_date d =
     (1 \<le> year d \<and> year d \<le> 9999 \<and> 1 \<le> month d \<and> month d \<le> 12 \<and>
      1 \<le> day d \<and> day d \<le> days_in_month (year d) (month d))"

text \<open>
  The constructor call \<^verbatim>\<open>date(y, m, d)\<close>. The month and the day come from
  \<^verbatim>\<open>dict.get\<close>, which gives \<^verbatim>\<open>None\<close> for a missing key: \<open>None\<close> here, a
  \<^verbatim>\<open>TypeError\<close> in the constructor. CPython converts the arguments to C integers
  from left to right before it checks any range, so a month or a day outside the range
  of a C \<^verbatim>\<open>int\<close> is an \<^verbatim>\<open>OverflowError\<close>, raised at the first argument that
  cannot be converted; fields that are converted and are not a date are a
  \<^verbatim>\<open>ValueError\<close>. The year is the year of a date and is always converted.
\<close>

definition c_int :: "int \<Rightarrow> bool" where
  "c_int n = (- 2147483648 \<le> n \<and> n \<le> 2147483647)"

definition mk_date :: "int \<Rightarrow> int option \<Rightarrow> int option \<Rightarrow> error + date" where
  "mk_date y mo dy =
     (case mo of
        None \<Rightarrow> Inl TypeError
      | Some m \<Rightarrow>
          if \<not> c_int m then Inl OverflowError
          else (case dy of
                  None \<Rightarrow> Inl TypeError
                | Some d \<Rightarrow>
                    if \<not> c_int d then Inl OverflowError
                    else (let r = \<lparr>year = y, month = m, day = d\<rparr>
                          in if valid_date r then Inr r else Inl ValueError)))"

text \<open>
  A month and a day that form a date in every year: present, in range, and not
  29 February.
\<close>

definition in_every_year :: "int option \<Rightarrow> int option \<Rightarrow> bool" where
  "in_every_year mo dy =
     (case mo of
        None \<Rightarrow> False
      | Some m \<Rightarrow>
          (case dy of
             None \<Rightarrow> False
           | Some k \<Rightarrow> 1 \<le> m \<and> m \<le> 12 \<and> 1 \<le> k \<and> k \<le> days_in_month 2023 m))"

definition date_lt :: "date \<Rightarrow> date \<Rightarrow> bool" where
  "date_lt a b =
     (year a < year b \<or>
      (year a = year b \<and> (month a < month b \<or> (month a = month b \<and> day a < day b))))"

definition date_le :: "date \<Rightarrow> date \<Rightarrow> bool" where
  "date_le a b =
     (year a < year b \<or>
      (year a = year b \<and> (month a < month b \<or> (month a = month b \<and> day a \<le> day b))))"

section \<open>Floating-point numbers\<close>

text \<open>
  A Python \<^verbatim>\<open>float\<close> is an IEEE 754 binary64 number: a finite value, which is a
  rational number, one of the two infinities, or not-a-number. The two zeros compare
  equal in Python and nothing in the pricing code tells them apart, so the model has
  one zero.
\<close>

datatype pyfloat = Fin rat | PInf | NInf | NaN

text \<open>
  Rounding a rational number to the nearest binary64 value, ties to the even
  significand. \<open>ilog2 x\<close> is the binary exponent of a positive \<open>x\<close>
  (\<open>2 powi ilog2 x \<le> x < 2 powi (ilog2 x + 1)\<close>); below the smallest normal
  exponent \<open>- 1022\<close> the spacing of the subnormal numbers is kept. The significand
  has 53 bits, so the spacing in the binade of exponent \<open>e\<close> is \<open>2 powi (e - 52)\<close>.
\<close>

definition round_half_even :: "rat \<Rightarrow> int" where
  "round_half_even y =
     (let f = \<lfloor>y\<rfloor>; r = y - of_int f
      in if r < 1 / 2 then f else if 1 / 2 < r then f + 1 else if even f then f else f + 1)"

definition ilog2 :: "rat \<Rightarrow> int" where
  "ilog2 x =
     (let (p, q) = quotient_of x; e0 = bitlen p - bitlen q
      in if 2 powi e0 \<le> x then e0 else e0 - 1)"

definition expo :: "rat \<Rightarrow> int" where
  "expo x = max (ilog2 \<bar>x\<bar>) (- 1022)"

definition quantum :: "rat \<Rightarrow> rat" where
  "quantum x = 2 powi (expo x - 52)"

definition round_nearest :: "rat \<Rightarrow> rat" where
  "round_nearest x =
     (if x = 0 then 0 else of_int (round_half_even (x / quantum x)) * quantum x)"

text \<open>
  A result whose rounded magnitude reaches \<open>2 powi 1024\<close> overflows to an infinity;
  Python's \<^verbatim>\<open>+\<close> and \<^verbatim>\<open>*\<close> on floats do not raise.
\<close>

definition to_double :: "rat \<Rightarrow> pyfloat" where
  "to_double x =
     (let r = round_nearest x
      in if 2 powi 1024 \<le> r then PInf else if r \<le> - (2 powi 1024) then NInf else Fin r)"

text \<open>The rational numbers that are finite binary64 values.\<close>

definition is_double :: "rat \<Rightarrow> bool" where
  "is_double x = (round_nearest x = x \<and> \<bar>x\<bar> < 2 powi 1024)"

text \<open>
  The values a running total can take when rates and multiplier are not negative: a
  finite binary64 value that is not negative, or the positive infinity after an overflow.
\<close>

definition settled :: "pyfloat \<Rightarrow> bool" where
  "settled t = (case t of Fin x \<Rightarrow> 0 \<le> x \<and> round_nearest x = x | PInf \<Rightarrow> True | _ \<Rightarrow> False)"

definition fsign :: "pyfloat \<Rightarrow> int" where
  "fsign a =
     (case a of
        Fin x \<Rightarrow> (if x = 0 then 0 else if 0 < x then 1 else - 1)
      | PInf \<Rightarrow> 1
      | NInf \<Rightarrow> - 1
      | NaN \<Rightarrow> 0)"

definition inf_of_sign :: "int \<Rightarrow> pyfloat" where
  "inf_of_sign s = (if s = 0 then NaN else if 0 < s then PInf else NInf)"

fun fmul :: "pyfloat \<Rightarrow> pyfloat \<Rightarrow> pyfloat" where
  "fmul (Fin a) (Fin b) = to_double (a * b)"
| "fmul NaN b = NaN"
| "fmul a NaN = NaN"
| "fmul a b = inf_of_sign (fsign a * fsign b)"

fun fadd :: "pyfloat \<Rightarrow> pyfloat \<Rightarrow> pyfloat" where
  "fadd (Fin a) (Fin b) = to_double (a + b)"
| "fadd NaN b = NaN"
| "fadd a NaN = NaN"
| "fadd PInf NInf = NaN"
| "fadd NInf PInf = NaN"
| "fadd PInf b = PInf"
| "fadd a PInf = PInf"
| "fadd NInf b = NInf"
| "fadd a NInf = NInf"

text \<open>Python's \<^verbatim>\<open>a <= b\<close> on floats: false as soon as one side is not a number.\<close>

fun fle :: "pyfloat \<Rightarrow> pyfloat \<Rightarrow> bool" where
  "fle (Fin a) (Fin b) = (a \<le> b)"
| "fle NaN b = False"
| "fle a NaN = False"
| "fle NInf b = True"
| "fle a PInf = True"
| "fle a b = False"

text \<open>
  \<^verbatim>\<open>round(x, 2)\<close>: the exact value of \<open>x\<close> is rounded to two decimal places, ties to
  the even digit, and the decimal result is converted to the nearest float. Infinities
  and not-a-number round to themselves.
\<close>

fun round2 :: "pyfloat \<Rightarrow> pyfloat" where
  "round2 (Fin x) = to_double (of_int (round_half_even (x * 100)) / 100)"
| "round2 a = a"

section \<open>Seasons\<close>

text \<open>
  A season is a dictionary read from the store. The code reads its fields with
  \<^verbatim>\<open>s.get(...)\<close>, so every field the code reads may be missing.
\<close>

record season =
  name :: string
  start_month :: "int option"
  start_day :: "int option"
  end_month :: "int option"
  end_day :: "int option"
  rate :: "pyfloat option"

text \<open>
  The body of the loop of \<^verbatim>\<open>season_for_day\<close> (lines 43 to 52 of \<^verbatim>\<open>main.py\<close>) for one
  season: both boundaries are built in the year of \<open>d\<close>, the start first, and either
  construction may raise. \<open>Inr True\<close> is the branch that returns the season.
\<close>

definition season_matches :: "date \<Rightarrow> season \<Rightarrow> error + bool" where
  "season_matches d s =
     (case mk_date (year d) (start_month s) (start_day s) of
        Inl e \<Rightarrow> Inl e
      | Inr start_this_year \<Rightarrow>
          (case mk_date (year d) (end_month s) (end_day s) of
             Inl e \<Rightarrow> Inl e
           | Inr end_this_year \<Rightarrow>
               if date_lt end_this_year start_this_year
               then Inr (date_le start_this_year d \<or> date_le d end_this_year)
               else Inr (date_le start_this_year d \<and> date_le d end_this_year)))"

fun season_for_day :: "date \<Rightarrow> season list \<Rightarrow> error + season option" where
  "season_for_day d [] = Inr None"
| "season_for_day d (s # seasons) =
     (case season_matches d s of
        Inl e \<Rightarrow> Inl e
      | Inr True \<Rightarrow> Inr (Some s)
      | Inr False \<Rightarrow> season_for_day d seasons)"

section \<open>Rooms and the price of a stay\<close>

text \<open>
  A room is a dictionary of the store as well; the code reads its identifier, its
  capacity (default 1) and its multiplier (default 1.0).
\<close>

record room =
  room_id :: string
  capacity :: "int option"
  multiplier :: "pyfloat option"

text \<open>
  \<^verbatim>\<open>cur + timedelta(days=1)\<close>: the next calendar day; past 31 December 9999 Python
  raises \<^verbatim>\<open>OverflowError\<close>.
\<close>

definition next_day :: "date \<Rightarrow> error + date" where
  "next_day d =
     (if day d < days_in_month (year d) (month d) then Inr (d\<lparr>day := day d + 1\<rparr>)
      else if month d < 12 then Inr \<lparr>year = year d, month = month d + 1, day = 1\<rparr>
      else if year d < 9999 then Inr \<lparr>year = year d + 1, month = 1, day = 1\<rparr>
      else Inl OverflowError)"

text \<open>
  The generator \<^verbatim>\<open>daterange\<close>: the days it yields, in order, and the exception that
  ended it, if one did (the addition is the only step of the generator that can raise).
\<close>

function daterange :: "date \<Rightarrow> date \<Rightarrow> date list \<times> error option" where
  "daterange cur end =
     (if date_lt cur end
      then (case next_day cur of
              Inl e \<Rightarrow> ([cur], Some e)
            | Inr nxt \<Rightarrow> (case daterange nxt end of (ds, stop) \<Rightarrow> (cur # ds, stop)))
      else ([], None))"
  by pat_completeness auto
termination
  by (relation "measures [\<lambda>(cur, end). nat (year end + 1 - year cur),
                          \<lambda>(cur, end). nat (12 - month cur),
                          \<lambda>(cur, end). nat (31 - day cur)]")
    (auto simp: next_day_def date_lt_def days_in_month_def split: if_splits)

declare daterange.simps [simp del]

text \<open>\<^verbatim>\<open>s.get("rate", 0.0) if s else 0.0\<close> and \<^verbatim>\<open>float(room.get("multiplier", 1.0))\<close>.\<close>

definition base_rate :: "season option \<Rightarrow> pyfloat" where
  "base_rate so =
     (case so of
        None \<Rightarrow> Fin 0
      | Some s \<Rightarrow> (case rate s of None \<Rightarrow> Fin 0 | Some r \<Rightarrow> r))"

definition room_multiplier :: "room \<Rightarrow> pyfloat" where
  "room_multiplier r = (case multiplier r of None \<Rightarrow> Fin 1 | Some m \<Rightarrow> m)"

text \<open>
  The loop of \<^verbatim>\<open>compute_price\<close> (lines 59 to 62) over the days the generator yields,
  with the running total as an argument. A day whose season lookup raises ends the
  computation with that exception.
\<close>

fun price_days :: "season list \<Rightarrow> room \<Rightarrow> pyfloat \<Rightarrow> date list \<Rightarrow> error + pyfloat" where
  "price_days seasons r tot [] = Inr tot"
| "price_days seasons r tot (d # ds) =
     (case season_for_day d seasons of
        Inl e \<Rightarrow> Inl e
      | Inr s \<Rightarrow> price_days seasons r (fadd tot (fmul (base_rate s) (room_multiplier r))) ds)"

text \<open>
  \<^verbatim>\<open>compute_price\<close>. The seasons are what \<^verbatim>\<open>get_active_seasons()\<close> reads from the
  store, in the order the store returns them; the store's module is not among the
  sources, so its content is an argument.
\<close>

definition compute_price :: "season list \<Rightarrow> room \<Rightarrow> date \<Rightarrow> date \<Rightarrow> error + pyfloat" where
  "compute_price seasons r check_in check_out =
     (case daterange check_in check_out of
        (days, stop) \<Rightarrow>
          (case price_days seasons r (Fin 0) days of
             Inl e \<Rightarrow> Inl e
           | Inr tot \<Rightarrow>
               (case stop of Some e \<Rightarrow> Inl e | None \<Rightarrow> Inr (round2 tot))))"

text \<open>
  The price of a stay as section 4.1 of the specification describes it, to compare the
  loop of the code with: each day has a day price, the base rate of the first season
  that contains the day (0 when none does) times the room's multiplier, and the total is
  the sum of the day prices, taken in the order of the days. A day whose lookup raises
  has no price, and the first such day ends the sum.
\<close>

definition spec_day_price :: "season list \<Rightarrow> room \<Rightarrow> date \<Rightarrow> error + pyfloat" where
  "spec_day_price seasons r d =
     (case season_for_day d seasons of
        Inl e \<Rightarrow> Inl e
      | Inr None \<Rightarrow> Inr (fmul (Fin 0) (room_multiplier r))
      | Inr (Some s) \<Rightarrow>
          Inr (fmul (case rate s of None \<Rightarrow> Fin 0 | Some x \<Rightarrow> x) (room_multiplier r)))"

fun spec_sum :: "pyfloat \<Rightarrow> (error + pyfloat) list \<Rightarrow> error + pyfloat" where
  "spec_sum acc [] = Inr acc"
| "spec_sum acc (Inl e # ps) = Inl e"
| "spec_sum acc (Inr p # ps) = spec_sum (fadd acc p) ps"

text \<open>The total before the final rounding, for stating what the loop accumulates.\<close>

definition unrounded_total :: "season list \<Rightarrow> room \<Rightarrow> pyfloat \<Rightarrow> date \<Rightarrow> date \<Rightarrow> error + pyfloat" where
  "unrounded_total seasons r start check_in check_out =
     price_days seasons r start (fst (daterange check_in check_out))"

section \<open>The quote and booking endpoints\<close>

text \<open>
  \<^verbatim>\<open>parse_date\<close> is \<^verbatim>\<open>datetime.strptime(s, "%Y-%m-%d").date()\<close>. The library matches
  the text against four digits, a month (\<^verbatim>\<open>1[0-2]|0[1-9]|[1-9]\<close>) and a day
  (\<^verbatim>\<open>3[0-1]|[1-2]\d|0[1-9]|[1-9]| [1-9]\<close>) separated by hyphens, refuses text left
  over after the day, and raises \<^verbatim>\<open>ValueError\<close> when the text does not match or the
  fields are not a date. The model reads ASCII digits only.
\<close>

definition is_digit :: "char \<Rightarrow> bool" where
  "is_digit c = (48 \<le> (of_char c :: nat) \<and> (of_char c :: nat) \<le> 57)"

definition digit_val :: "char \<Rightarrow> int" where
  "digit_val c = int (of_char c) - 48"

fun parse_month :: "string \<Rightarrow> (int \<times> string) option" where
  "parse_month (a # b # rest) =
     (if a = CHR ''1'' \<and> is_digit b \<and> digit_val b \<le> 2 then Some (10 + digit_val b, rest)
      else if a = CHR ''0'' \<and> is_digit b \<and> 1 \<le> digit_val b then Some (digit_val b, rest)
      else if is_digit a \<and> 1 \<le> digit_val a then Some (digit_val a, b # rest)
      else None)"
| "parse_month [a] = (if is_digit a \<and> 1 \<le> digit_val a then Some (digit_val a, []) else None)"
| "parse_month [] = None"

fun parse_day :: "string \<Rightarrow> (int \<times> string) option" where
  "parse_day (a # b # rest) =
     (if a = CHR ''3'' \<and> is_digit b \<and> digit_val b \<le> 1 then Some (30 + digit_val b, rest)
      else if is_digit a \<and> 1 \<le> digit_val a \<and> digit_val a \<le> 2 \<and> is_digit b
        then Some (10 * digit_val a + digit_val b, rest)
      else if a = CHR ''0'' \<and> is_digit b \<and> 1 \<le> digit_val b then Some (digit_val b, rest)
      else if is_digit a \<and> 1 \<le> digit_val a then Some (digit_val a, b # rest)
      else if a = CHR '' '' \<and> is_digit b \<and> 1 \<le> digit_val b then Some (digit_val b, rest)
      else None)"
| "parse_day [a] = (if is_digit a \<and> 1 \<le> digit_val a then Some (digit_val a, []) else None)"
| "parse_day [] = None"

definition parse_date :: "string \<Rightarrow> error + date" where
  "parse_date s =
     (case s of
        y1 # y2 # y3 # y4 # h # rest \<Rightarrow>
          if is_digit y1 \<and> is_digit y2 \<and> is_digit y3 \<and> is_digit y4 \<and> h = CHR ''-''
          then (case parse_month rest of
                  Some (m, h' # rest') \<Rightarrow>
                    if h' = CHR ''-''
                    then (case parse_day rest' of
                            Some (d, []) \<Rightarrow>
                              (let r = \<lparr>year = 1000 * digit_val y1 + 100 * digit_val y2
                                              + 10 * digit_val y3 + digit_val y4,
                                        month = m, day = d\<rparr>
                               in if valid_date r then Inr r else Inl ValueError)
                          | _ \<Rightarrow> Inl ValueError)
                    else Inl ValueError
                | _ \<Rightarrow> Inl ValueError)
          else Inl ValueError
      | _ \<Rightarrow> Inl ValueError)"

text \<open>
  The request bodies: \<^verbatim>\<open>BookingRequest\<close> extends \<^verbatim>\<open>QuoteRequest\<close>, so the booking
  handler reads the four fields of a quote from its payload as the quote handler does.
\<close>

record quote_request =
  req_room_id :: string
  req_check_in :: string
  req_check_out :: string
  req_guests :: int

record booking_request = quote_request +
  req_name :: string
  req_email :: string
  req_university :: "string option"
  req_phone :: "string option"

record quote_response =
  quote_room_id :: string
  quote_check_in :: string
  quote_check_out :: string
  quote_guests :: int
  quote_total_price :: pyfloat
  quote_currency :: string

record booking =
  booking_room_id :: string
  booking_check_in :: string
  booking_check_out :: string
  booking_guests :: int
  booking_total_price :: pyfloat
  booking_currency :: string
  booking_status :: string
  student_name :: string
  student_email :: string
  student_university :: "string option"
  student_phone :: "string option"
  created_at :: nat
  updated_at :: nat

record booking_response =
  resp_booking_id :: string
  resp_total_price :: pyfloat
  resp_currency :: string
  resp_status :: string

text \<open>The collections of the store that the two handlers read and write.\<close>

record store =
  store_rooms :: "room list"
  store_seasons :: "season list"
  store_bookings :: "booking list"

definition room_capacity :: "room \<Rightarrow> int" where
  "room_capacity r = (case capacity r of None \<Rightarrow> 1 | Some c \<Rightarrow> c)"

text \<open>
  \<^verbatim>\<open>get_quote\<close> (lines 117 to 130). An \<^verbatim>\<open>HTTPException\<close> carries its status code and
  detail; an exception of \<^verbatim>\<open>parse_date\<close> or of \<^verbatim>\<open>compute_price\<close> is not caught.
\<close>

definition get_quote :: "store \<Rightarrow> 'a quote_request_scheme \<Rightarrow> error + quote_response" where
  "get_quote db payload =
     (case find (\<lambda>r. room_id r = req_room_id payload) (store_rooms db) of
        None \<Rightarrow> Inl (HTTPException 404 ''Room not found'')
      | Some r \<Rightarrow>
          (case parse_date (req_check_in payload) of
             Inl e \<Rightarrow> Inl e
           | Inr ci \<Rightarrow>
               (case parse_date (req_check_out payload) of
                  Inl e \<Rightarrow> Inl e
                | Inr co \<Rightarrow>
                    if date_le co ci
                    then Inl (HTTPException 400 ''check_out must be after check_in'')
                    else if req_guests payload < 1 \<or> room_capacity r < req_guests payload
                    then Inl (HTTPException 400 ''Invalid number of guests for this room'')
                    else (case compute_price (store_seasons db) r ci co of
                            Inl e \<Rightarrow> Inl e
                          | Inr price \<Rightarrow>
                              Inr \<lparr>quote_room_id = req_room_id payload,
                                   quote_check_in = req_check_in payload,
                                   quote_check_out = req_check_out payload,
                                   quote_guests = req_guests payload,
                                   quote_total_price = price,
                                   quote_currency = ''EUR''\<rparr>))))"

text \<open>
  \<^verbatim>\<open>create_booking\<close> (lines 132 to 164). The identifier that the store gives the
  inserted document and the two readings of the clock are arguments; the result is the
  response and the store with the booking added.
\<close>

definition create_booking ::
  "store \<Rightarrow> string \<Rightarrow> nat \<Rightarrow> nat \<Rightarrow> booking_request \<Rightarrow> error + (booking_response \<times> store)" where
  "create_booking db inserted_id now1 now2 payload =
     (case find (\<lambda>r. room_id r = req_room_id payload) (store_rooms db) of
        None \<Rightarrow> Inl (HTTPException 404 ''Room not found'')
      | Some r \<Rightarrow>
          (case parse_date (req_check_in payload) of
             Inl e \<Rightarrow> Inl e
           | Inr ci \<Rightarrow>
               (case parse_date (req_check_out payload) of
                  Inl e \<Rightarrow> Inl e
                | Inr co \<Rightarrow>
                    if date_le co ci
                    then Inl (HTTPException 400 ''check_out must be after check_in'')
                    else if req_guests payload < 1 \<or> room_capacity r < req_guests payload
                    then Inl (HTTPException 400 ''Invalid number of guests for this room'')
                    else (case compute_price (store_seasons db) r ci co of
                            Inl e \<Rightarrow> Inl e
                          | Inr tot \<Rightarrow>
                              (let booking_doc =
                                 \<lparr>booking_room_id = req_room_id payload,
                                  booking_check_in = req_check_in payload,
                                  booking_check_out = req_check_out payload,
                                  booking_guests = req_guests payload,
                                  booking_total_price = tot,
                                  booking_currency = ''EUR'',
                                  booking_status = ''confirmed'',
                                  student_name = req_name payload,
                                  student_email = req_email payload,
                                  student_university = req_university payload,
                                  student_phone = req_phone payload,
                                  created_at = now1,
                                  updated_at = now2\<rparr>
                               in Inr (\<lparr>resp_booking_id = inserted_id,
                                        resp_total_price = tot,
                                        resp_currency = ''EUR'',
                                        resp_status = ''confirmed''\<rparr>,
                                       db\<lparr>store_bookings := store_bookings db @ [booking_doc]\<rparr>))))))"

text \<open>The (month, day) pairs of two boundaries, compared as pairs.\<close>

definition md_lt :: "int \<times> int \<Rightarrow> int \<times> int \<Rightarrow> bool" where
  "md_lt a b = (fst a < fst b \<or> (fst a = fst b \<and> snd a < snd b))"

section \<open>Example data\<close>

text \<open>
  The seasons and the rooms that \<^verbatim>\<open>seed_defaults\<close> stores (lines 75 to 84). The store
  gives each room its identifier; \<open>r1\<close> and \<open>r2\<close> stand for them. The literal
  \<^verbatim>\<open>1.4\<close> is the binary64 value nearest to 7/5.
\<close>

definition academic_year :: season where
  "academic_year =
     \<lparr>name = ''Academic Year'', start_month = Some 10, start_day = Some 1,
      end_month = Some 6, end_day = Some 30, rate = Some (Fin 45)\<rparr>"

definition summer :: season where
  "summer =
     \<lparr>name = ''Summer'', start_month = Some 7, start_day = Some 1,
      end_month = Some 9, end_day = Some 30, rate = Some (Fin 35)\<rparr>"

definition holiday :: season where
  "holiday =
     \<lparr>name = ''Holiday'', start_month = Some 12, start_day = Some 20,
      end_month = Some 12, end_day = Some 31, rate = Some (Fin 50)\<rparr>"

definition seed_seasons :: "season list" where
  "seed_seasons = [academic_year, summer, holiday]"

definition private_room :: room where
  "private_room = \<lparr>room_id = ''r1'', capacity = Some 2, multiplier = Some (Fin 1)\<rparr>"

definition entire_apartment :: room where
  "entire_apartment =
     \<lparr>room_id = ''r2'', capacity = Some 4, multiplier = Some (to_double (7 / 5))\<rparr>"

text \<open>The season list of the scenario of the specification: the first two seeded seasons.\<close>

definition scenario_seasons :: "season list" where
  "scenario_seasons = [academic_year, summer]"

text \<open>
  Further seasons for the examples: a season of one day, the season of 29 February
  alone, a season that wraps the year end, a season without a rate, a season that covers
  the whole year at the rate 10.125, and a season that ends on 29 February.
\<close>

definition one_day_season :: season where
  "one_day_season =
     \<lparr>name = ''Open Day'', start_month = Some 5, start_day = Some 5,
      end_month = Some 5, end_day = Some 5, rate = Some (Fin 20)\<rparr>"

definition leap_day_season :: season where
  "leap_day_season =
     \<lparr>name = ''Leap Day'', start_month = Some 2, start_day = Some 29,
      end_month = Some 2, end_day = Some 29, rate = Some (Fin 20)\<rparr>"

definition winter_season :: season where
  "winter_season =
     \<lparr>name = ''Winter'', start_month = Some 12, start_day = Some 20,
      end_month = Some 1, end_day = Some 5, rate = Some (Fin 50)\<rparr>"

definition unpriced_season :: season where
  "unpriced_season =
     \<lparr>name = ''Closed'', start_month = Some 8, start_day = Some 1,
      end_month = Some 8, end_day = Some 31, rate = None\<rparr>"

definition all_year :: season where
  "all_year =
     \<lparr>name = ''All Year'', start_month = Some 1, start_day = Some 1,
      end_month = Some 12, end_day = Some 31, rate = Some (Fin (81 / 8))\<rparr>"

definition winter_term :: season where
  "winter_term =
     \<lparr>name = ''Winter Term'', start_month = Some 12, start_day = Some 1,
      end_month = Some 2, end_day = Some 29, rate = Some (Fin 40)\<rparr>"

text \<open>A store and a booking request for the two handlers.\<close>

definition sample_store :: store where
  "sample_store =
     \<lparr>store_rooms = [private_room], store_seasons = [all_year], store_bookings = []\<rparr>"

definition sample_request :: booking_request where
  "sample_request =
     \<lparr>req_room_id = ''r1'', req_check_in = ''2024-01-01'', req_check_out = ''2024-01-03'',
      req_guests = 2, req_name = ''Ada'', req_email = ''ada@example.org'',
      req_university = None, req_phone = None\<rparr>"

section \<open>Facts about binary rounding\<close>

lemma rhe_of_int [simp]: "round_half_even (of_int n) = n"
  by (simp add: round_half_even_def)

lemma rhe_bounds: "\<lfloor>y\<rfloor> \<le> round_half_even y" "round_half_even y \<le> \<lfloor>y\<rfloor> + 1"
  by (simp_all add: round_half_even_def Let_def)

lemma rhe_mono:
  assumes "y \<le> z"
  shows "round_half_even y \<le> round_half_even z"
proof (cases "\<lfloor>y\<rfloor> = \<lfloor>z\<rfloor>")
  case True
  define f where "f = \<lfloor>z\<rfloor>"
  define ry where "ry = y - of_int f"
  define rz where "rz = z - of_int f"
  have le: "ry \<le> rz" using assms by (simp add: ry_def rz_def)
  have a: "round_half_even y =
      (if ry < 1 / 2 then f else if 1 / 2 < ry then f + 1 else if even f then f else f + 1)"
    by (simp add: round_half_even_def Let_def True f_def ry_def)
  have b: "round_half_even z =
      (if rz < 1 / 2 then f else if 1 / 2 < rz then f + 1 else if even f then f else f + 1)"
    by (simp add: round_half_even_def Let_def f_def rz_def)
  show ?thesis unfolding a b using le by auto
next
  case False
  with assms have "\<lfloor>y\<rfloor> + 1 \<le> \<lfloor>z\<rfloor>"
    using floor_mono [of y z] by linarith
  with rhe_bounds(2) [of y] rhe_bounds(1) [of z] show ?thesis by linarith
qed

lemma rhe_neg: "round_half_even (- y) = - round_half_even y"
proof (cases "y = of_int \<lfloor>y\<rfloor>")
  case True
  then obtain n :: int where "y = of_int n" ..
  then have "round_half_even (- y) = round_half_even (of_int (- n))" by simp
  also have "\<dots> = - n" by (rule rhe_of_int)
  finally show ?thesis using \<open>y = of_int n\<close> by simp
next
  case False
  then have "\<lceil>y\<rceil> = \<lfloor>y\<rfloor> + 1" by (simp add: ceiling_altdef)
  then have fl: "\<lfloor>- y\<rfloor> = - \<lfloor>y\<rfloor> - 1" by (simp add: ceiling_def)
  define f where "f = \<lfloor>y\<rfloor>"
  define r where "r = y - of_int f"
  have "0 \<le> r" "r < 1" "r \<noteq> 0" using False by (simp_all add: r_def f_def) linarith
  then have r: "0 < r" "r < 1" by simp_all
  have y: "y = of_int f + r" by (simp add: r_def)
  have e: "even (- f - 1) = odd f" by simp
  have a: "round_half_even y =
      (if r < 1 / 2 then f else if 1 / 2 < r then f + 1 else if even f then f else f + 1)"
    by (simp add: round_half_even_def Let_def f_def r_def)
  have "- y - of_int (- f - 1) = 1 - r" by (simp add: y)
  then have b: "round_half_even (- y) =
      (if 1 - r < 1 / 2 then - f - 1 else if 1 / 2 < 1 - r then - f
       else if odd f then - f - 1 else - f)"
    unfolding round_half_even_def Let_def fl f_def [symmetric] using e by simp
  show ?thesis unfolding a b using r by auto
qed

lemma p2_pos [simp]: "0 < (2::rat) powi e"
  by (simp add: zero_less_power_int)

lemma p2_mono: "a \<le> b \<Longrightarrow> (2::rat) powi a \<le> 2 powi b"
  by (rule power_int_increasing) simp_all

lemma p2_strict: "a < b \<Longrightarrow> (2::rat) powi a < 2 powi b"
  by (rule power_int_strict_increasing) simp_all

lemma p2_less_cancel: "(2::rat) powi a < 2 powi b \<Longrightarrow> a < b"
  using p2_mono [of b a] by (cases "a < b") auto

lemma p2_of_bitlen:
  assumes "0 < p"
  shows "(2::rat) powi (bitlen p - 1) \<le> of_int p" "of_int p < (2::rat) powi (bitlen p)"
proof -
  from bitlen_bounds [OF assms]
  have lo: "2 ^ nat (bitlen p - 1) \<le> p" and hi: "p < 2 ^ nat (bitlen p)" by simp_all
  from hi assms have b1: "1 \<le> bitlen p"
    by (cases "1 \<le> bitlen p") auto
  have "(of_int (2 ^ nat (bitlen p - 1)) :: rat) \<le> of_int p"
    using lo by (simp only: of_int_le_iff)
  then show "(2::rat) powi (bitlen p - 1) \<le> of_int p"
    using b1 by (simp add: power_int_nonneg_exp)
  have "(of_int p :: rat) < of_int (2 ^ nat (bitlen p))"
    using hi by (simp only: of_int_less_iff)
  then show "of_int p < (2::rat) powi (bitlen p)"
    using b1 by (simp add: power_int_nonneg_exp)
qed

lemma ilog2_bounds:
  assumes "0 < x"
  shows "2 powi (ilog2 x) \<le> x" "x < 2 powi (ilog2 x + 1)"
proof -
  obtain p q where pq: "quotient_of x = (p, q)" by force
  have q: "0 < q" using quotient_of_denom_pos [OF pq] .
  have x: "x = of_int p / of_int q" using quotient_of_div [OF pq] .
  have p: "0 < p" using assms q x by (simp add: zero_less_divide_iff)
  define a where "a = bitlen p"
  define b where "b = bitlen q"
  note pa = p2_of_bitlen [OF p, folded a_def]
  note qb = p2_of_bitlen [OF q, folded b_def]
  have "2 powi (a - 1) / 2 powi b < (of_int p :: rat) / of_int q"
    using pa(1) qb(2) q by (intro frac_less2) simp_all
  moreover have "(2::rat) powi (a - 1 - b) = 2 powi (a - 1) / 2 powi b"
    by (rule power_int_diff) simp
  moreover have "a - b - 1 = a - 1 - b" by simp
  ultimately have lo: "2 powi (a - b - 1) < x"
    by (simp only: x)
  have "(of_int p :: rat) / of_int q < 2 powi a / 2 powi (b - 1)"
    using pa(2) qb(1) p by (intro frac_less) simp_all
  moreover have "(2::rat) powi (a - (b - 1)) = 2 powi a / 2 powi (b - 1)"
    by (rule power_int_diff) simp
  moreover have "a - b + 1 = a - (b - 1)" by simp
  ultimately have hi: "x < 2 powi (a - b + 1)"
    by (simp only: x)
  have il: "ilog2 x = (if 2 powi (a - b) \<le> x then a - b else a - b - 1)"
    by (simp add: ilog2_def pq a_def b_def Let_def)
  show "2 powi (ilog2 x) \<le> x" using lo by (simp add: il)
  show "x < 2 powi (ilog2 x + 1)" using hi by (simp add: il)
qed

lemma ilog2_unique:
  assumes "2 powi e \<le> x" "x < 2 powi (e + 1)"
  shows "ilog2 x = e"
proof -
  have "0 < (2::rat) powi e" by simp
  with assms have x: "0 < x" by linarith
  from ilog2_bounds [OF x] assms
  have "(2::rat) powi e < 2 powi (ilog2 x + 1)" "(2::rat) powi (ilog2 x) < 2 powi (e + 1)"
    by linarith+
  then have "e < ilog2 x + 1" "ilog2 x < e + 1" by (auto dest: p2_less_cancel)
  then show ?thesis by simp
qed

lemma ilog2_le:
  assumes "0 < x" "x < 2 powi (e + 1)"
  shows "ilog2 x \<le> e"
proof -
  from ilog2_bounds(1) [OF assms(1)] assms(2)
  have "(2::rat) powi (ilog2 x) < 2 powi (e + 1)" by linarith
  then show ?thesis by (auto dest: p2_less_cancel)
qed

lemma quantum_pos [simp]: "0 < quantum x"
  by (simp add: quantum_def)

lemma quantum_nonneg [simp]: "0 \<le> quantum x"
  by (simp add: quantum_def)

lemma expo_ge: "- 1022 \<le> expo x"
  by (simp add: expo_def)

lemma expo_neg [simp]: "expo (- x) = expo x"
  by (simp add: expo_def)

lemma quantum_neg [simp]: "quantum (- x) = quantum x"
  by (simp add: quantum_def)

lemma expo_upper:
  assumes "0 < x"
  shows "x < 2 powi (expo x + 1)"
proof -
  have "ilog2 x + 1 \<le> expo x + 1" using assms by (simp add: expo_def)
  then have "(2::rat) powi (ilog2 x + 1) \<le> 2 powi (expo x + 1)" by (rule p2_mono)
  with ilog2_bounds(2) [OF assms] show ?thesis by linarith
qed

lemma expo_lower:
  assumes "0 < x" "expo x \<noteq> - 1022"
  shows "2 powi (expo x) \<le> x"
proof -
  from assms have "expo x = ilog2 x" by (auto simp: expo_def max_def split: if_splits)
  with ilog2_bounds(1) [OF assms(1)] show ?thesis by simp
qed

lemma expo_eq:
  assumes "0 < r" "r < 2 powi (e + 1)" "2 powi e \<le> r \<or> e = - 1022" "- 1022 \<le> e"
  shows "expo r = e"
proof -
  have le: "ilog2 r \<le> e" using assms(1,2) by (rule ilog2_le)
  show ?thesis
  proof (cases "2 powi e \<le> r")
    case True
    then have "ilog2 r = e" using assms(2) by (rule ilog2_unique)
    with assms(1,4) show ?thesis by (simp add: expo_def)
  next
    case False
    with assms(3) have "e = - 1022" by simp
    with le assms(1) show ?thesis by (simp add: expo_def)
  qed
qed

lemma expo_mono:
  assumes "0 < x" "x \<le> y"
  shows "expo x \<le> expo y"
proof -
  from assms have y: "0 < y" by simp
  from ilog2_bounds(2) [OF y] assms have "x < 2 powi (ilog2 y + 1)" by simp
  with assms(1) have "ilog2 x \<le> ilog2 y" by (rule ilog2_le)
  with assms y show ?thesis by (simp add: expo_def)
qed

lemma grid_point:
  "(2::rat) powi (expo x + k) = of_int (2 ^ nat (52 + k)) * quantum x" if "- 52 \<le> k"
proof -
  have "expo x + k = (52 + k) + (expo x - 52)" by simp
  then have "(2::rat) powi (expo x + k) = 2 powi ((52 + k) + (expo x - 52))"
    by (rule arg_cong)
  also have "\<dots> = 2 powi (52 + k) * 2 powi (expo x - 52)"
    by (rule power_int_add) simp
  also have "(2::rat) powi (52 + k) = of_int (2 ^ nat (52 + k))"
    using that by (simp add: power_int_nonneg_exp)
  finally show ?thesis by (simp only: quantum_def)
qed

lemma rnd_grid_le:
  assumes "x \<noteq> 0" "of_int n * quantum x \<le> x"
  shows "of_int n * quantum x \<le> round_nearest x"
proof -
  from assms(2) have "of_int n \<le> x / quantum x"
    by (simp add: pos_le_divide_eq)
  from rhe_mono [OF this] have "n \<le> round_half_even (x / quantum x)" by simp
  then have "(of_int n :: rat) \<le> of_int (round_half_even (x / quantum x))"
    by (simp only: of_int_le_iff)
  then have "of_int n * quantum x \<le> of_int (round_half_even (x / quantum x)) * quantum x"
    by (rule mult_right_mono) simp
  with assms(1) show ?thesis by (simp add: round_nearest_def)
qed

lemma rnd_le_grid:
  assumes "x \<noteq> 0" "x \<le> of_int n * quantum x"
  shows "round_nearest x \<le> of_int n * quantum x"
proof -
  from assms(2) have "x / quantum x \<le> of_int n"
    by (simp add: pos_divide_le_eq)
  from rhe_mono [OF this] have "round_half_even (x / quantum x) \<le> n" by simp
  then have "(of_int (round_half_even (x / quantum x)) :: rat) \<le> of_int n"
    by (simp only: of_int_le_iff)
  then have "of_int (round_half_even (x / quantum x)) * quantum x \<le> of_int n * quantum x"
    by (rule mult_right_mono) simp
  with assms(1) show ?thesis by (simp add: round_nearest_def)
qed

lemma rnd_neg: "round_nearest (- x) = - round_nearest x"
  by (simp add: round_nearest_def rhe_neg)

lemma rnd_nonneg:
  assumes "0 \<le> x"
  shows "0 \<le> round_nearest x"
proof (cases "x = 0")
  case True
  then show ?thesis by (simp add: round_nearest_def)
next
  case False
  with assms rnd_grid_le [of x 0] show ?thesis by simp
qed

lemma rnd_upper:
  assumes "0 < x"
  shows "round_nearest x \<le> 2 powi (expo x + 1)"
proof -
  have "x \<le> 2 powi (expo x + 1)" using expo_upper [OF assms] by simp
  then show ?thesis
    using assms rnd_le_grid [of x "2 ^ nat (52 + 1)"] grid_point [of 1 x] by simp
qed

lemma rnd_lower:
  assumes "0 < x" "2 powi (expo x) \<le> x"
  shows "2 powi (expo x) \<le> round_nearest x"
  using assms rnd_grid_le [of x "2 ^ nat (52 + 0)"] grid_point [of 0 x] by simp

lemma rnd_mono_pos:
  assumes "0 < x" "x \<le> y"
  shows "round_nearest x \<le> round_nearest y"
proof -
  from assms have y: "0 < y" by simp
  have le: "expo x \<le> expo y" using assms by (rule expo_mono)
  show ?thesis
  proof (cases "expo x = expo y")
    case True
    then have q: "quantum x = quantum y" by (simp add: quantum_def)
    have "x / quantum y \<le> y / quantum y"
      using assms(2) by (intro divide_right_mono) simp_all
    from rhe_mono [OF this]
    have "(of_int (round_half_even (x / quantum y)) :: rat) \<le> of_int (round_half_even (y / quantum y))"
      by (simp only: of_int_le_iff)
    then have "of_int (round_half_even (x / quantum y)) * quantum y
        \<le> of_int (round_half_even (y / quantum y)) * quantum y"
      by (rule mult_right_mono) simp
    then show ?thesis using assms(1) y by (simp add: round_nearest_def q)
  next
    case False
    with le have lt: "expo x + 1 \<le> expo y" by simp
    with expo_ge [of x] have "expo y \<noteq> - 1022" by simp
    then have "2 powi (expo y) \<le> round_nearest y"
      using y by (intro rnd_lower expo_lower)
    moreover have "(2::rat) powi (expo x + 1) \<le> 2 powi (expo y)" using lt by (rule p2_mono)
    moreover note rnd_upper [OF assms(1)]
    ultimately show ?thesis by linarith
  qed
qed

lemma rnd_mono:
  assumes "x \<le> y"
  shows "round_nearest x \<le> round_nearest y"
proof -
  consider "0 < x" | "x \<le> 0" "0 \<le> y" | "y < 0" by linarith
  then show ?thesis
  proof cases
    case 1
    then show ?thesis using assms by (rule rnd_mono_pos)
  next
    case 2
    from 2(1) have "0 \<le> round_nearest (- x)" by (intro rnd_nonneg) simp
    then have "round_nearest x \<le> 0" by (simp add: rnd_neg)
    with rnd_nonneg [OF 2(2)] show ?thesis by linarith
  next
    case 3
    with assms have "0 < - y" "- y \<le> - x" by simp_all
    then have "round_nearest (- y) \<le> round_nearest (- x)" by (rule rnd_mono_pos)
    then show ?thesis by (simp add: rnd_neg)
  qed
qed

lemma rnd_fixed_grid:
  assumes "r \<noteq> 0" "r = of_int m * quantum r"
  shows "round_nearest r = r"
proof -
  have q: "quantum r \<noteq> 0" by (simp add: quantum_def)
  have "of_int m * quantum r / quantum r = (of_int m :: rat)" using q by simp
  with assms(2) have "r / quantum r = of_int m" by simp
  then have "of_int (round_half_even (r / quantum r)) * quantum r = of_int m * quantum r"
    by simp
  with assms show ?thesis by (simp only: round_nearest_def if_False)
qed

lemma rnd_idem_pos:
  assumes "0 < x"
  shows "round_nearest (round_nearest x) = round_nearest x"
proof -
  define e where "e = expo x"
  define m where "m = round_half_even (x / quantum x)"
  define r where "r = round_nearest x"
  have r: "r = of_int m * quantum x" using assms by (simp add: r_def m_def round_nearest_def)
  have r0: "0 \<le> r" unfolding r_def using assms by (intro rnd_nonneg) simp
  have up: "r \<le> 2 powi (e + 1)" unfolding r_def e_def using assms by (rule rnd_upper)
  have e: "- 1022 \<le> e" unfolding e_def by (rule expo_ge)
  show ?thesis
  proof (cases "r = 0")
    case True
    then have "round_nearest r = r" by (simp add: round_nearest_def)
    then show ?thesis by (simp only: r_def)
  next
    case nz: False
    with r0 have rpos: "0 < r" by simp
    show ?thesis
    proof (cases "r = 2 powi (e + 1)")
      case True
      have "expo r = e + 1"
        using rpos e by (intro expo_eq) (simp_all add: True p2_strict)
      then have qr: "quantum r = 2 powi (e + 1 - 52)" by (simp only: quantum_def)
      have "e + 1 = 52 + (e + 1 - 52)" by simp
      then have "(2::rat) powi (e + 1) = 2 powi (52 + (e + 1 - 52))" by (rule arg_cong)
      also have "\<dots> = 2 powi 52 * 2 powi (e + 1 - 52)"
        by (rule power_int_add) simp
      also have "\<dots> = of_int (2 ^ 52) * quantum r" by (simp add: qr)
      finally have "r = of_int (2 ^ 52) * quantum r" by (simp only: True)
      with nz have "round_nearest r = r" by (rule rnd_fixed_grid)
      then show ?thesis by (simp only: r_def)
    next
      case False
      with up have lt: "r < 2 powi (e + 1)" by simp
      have lo: "2 powi e \<le> r \<or> e = - 1022"
      proof (cases "e = - 1022")
        case False
        then have "2 powi (expo x) \<le> x" using assms by (intro expo_lower) (simp_all add: e_def)
        with assms have "2 powi (expo x) \<le> round_nearest x" by (rule rnd_lower)
        then show ?thesis by (simp add: e_def r_def)
      qed simp
      have "expo r = e" using rpos lt lo e by (rule expo_eq)
      then have "quantum r = quantum x" by (simp add: quantum_def e_def)
      with r have "r = of_int m * quantum r" by simp
      with nz have "round_nearest r = r" by (rule rnd_fixed_grid)
      then show ?thesis by (simp only: r_def)
    qed
  qed
qed

lemma rnd_idem: "round_nearest (round_nearest x) = round_nearest x"
proof -
  consider "0 < x" | "x = 0" | "0 < - x" by linarith
  then show ?thesis
  proof cases
    case 1
    then show ?thesis by (rule rnd_idem_pos)
  next
    case 2
    then show ?thesis by (simp add: round_nearest_def)
  next
    case 3
    from rnd_idem_pos [OF 3] show ?thesis by (simp add: rnd_neg)
  qed
qed

lemma round_nearest_eval:
  assumes "2 powi e \<le> \<bar>x\<bar>" "\<bar>x\<bar> < 2 powi (e + 1)" "- 1022 \<le> e"
  shows "round_nearest x = of_int (round_half_even (x / 2 powi (e - 52))) * 2 powi (e - 52)"
proof -
  have "0 < \<bar>x\<bar>" using assms(1) zero_less_power_int [of "2::rat" e] by linarith
  then have nz: "x \<noteq> 0" by simp
  have "ilog2 \<bar>x\<bar> = e" using assms(1,2) by (rule ilog2_unique)
  with assms(3) have "expo x = e" by (simp add: expo_def)
  then show ?thesis using nz by (simp add: round_nearest_def quantum_def)
qed

lemma rhe_eval:
  assumes "of_int n - 1 / 2 < y" "y < of_int n + 1 / 2"
  shows "round_half_even y = n"
proof (cases "of_int n \<le> y")
  case True
  then have "\<lfloor>y\<rfloor> = n" using assms(2) by (intro floor_unique) simp_all
  then show ?thesis using assms(2) by (simp add: round_half_even_def Let_def)
next
  case False
  then have "\<lfloor>y\<rfloor> = n - 1" using assms(1) by (intro floor_unique) simp_all
  then show ?thesis using assms(1) False by (simp add: round_half_even_def Let_def)
qed

lemma to_double_eval:
  assumes "2 powi e \<le> \<bar>x\<bar>" "\<bar>x\<bar> < 2 powi (e + 1)" "- 1022 \<le> e" "e < 1023"
    and "of_int n - 1 / 2 < x / 2 powi (e - 52)" "x / 2 powi (e - 52) < of_int n + 1 / 2"
    and "r = of_int n * 2 powi (e - 52)"
  shows "to_double x = Fin r"
proof -
  have "round_half_even (x / 2 powi (e - 52)) = n" using assms(5,6) by (rule rhe_eval)
  then have r: "round_nearest x = r" using assms(1,2,3,7) by (simp add: round_nearest_eval)
  have "round_nearest \<bar>x\<bar> \<le> 2 powi (expo \<bar>x\<bar> + 1)"
    using assms(1) zero_less_power_int [of "2::rat" e] by (intro rnd_upper) linarith
  moreover have "expo \<bar>x\<bar> = e"
    using assms(1,2,3) ilog2_unique [of e "\<bar>x\<bar>"] by (simp add: expo_def)
  ultimately have up: "round_nearest \<bar>x\<bar> \<le> 2 powi (e + 1)" by simp
  have "(2::rat) powi (e + 1) < 2 powi 1024" using assms(4) by (intro p2_strict) simp
  with up have lt: "round_nearest \<bar>x\<bar> < 2 powi 1024" by linarith
  have "\<bar>round_nearest x\<bar> = round_nearest \<bar>x\<bar>"
    using rnd_nonneg [of x] rnd_nonneg [of "- x"] by (auto simp: abs_if rnd_neg)
  with lt have "\<bar>r\<bar> < 2 powi 1024" by (simp add: r)
  then have "\<not> 2 powi 1024 \<le> r" "\<not> r \<le> - (2 powi 1024)" by linarith+
  then show ?thesis by (simp add: to_double_def r)
qed

lemma rhe_tie: "round_half_even (of_int f + 1 / 2) = (if even f then f else f + 1)"
proof -
  have "\<lfloor>(of_int f + 1 / 2 :: rat)\<rfloor> = f" by (intro floor_unique) simp_all
  then show ?thesis by (simp add: round_half_even_def Let_def)
qed

section \<open>Facts about dates\<close>

lemma mk_date_Inr:
  "mk_date y mo dy = Inr b \<Longrightarrow>
     (\<exists>m k. mo = Some m \<and> dy = Some k \<and> b = \<lparr>year = y, month = m, day = k\<rparr> \<and> valid_date b)"
  by (auto simp: mk_date_def c_int_def Let_def split: option.splits if_splits)

lemma date_le_antisym: "date_le a b \<Longrightarrow> date_le b a \<Longrightarrow> (a :: date) = b"
  by (auto simp: date_le_def)

lemma date_le_refl: "date_le a a"
  by (simp add: date_le_def)

lemma date_lt_irrefl: "\<not> date_lt a a"
  by (simp add: date_lt_def)

lemma date_le_iff_not_lt: "date_le a b = (\<not> date_lt b a)"
  by (auto simp: date_le_def date_lt_def)

lemma date_lt_trans: "date_lt a b \<Longrightarrow> date_lt b c \<Longrightarrow> date_lt a c"
  by (auto simp: date_lt_def)

lemma date_le_trans: "date_le a b \<Longrightarrow> date_le b c \<Longrightarrow> date_le a c"
  by (auto simp: date_le_def)

lemma date_lt_le_trans: "date_lt a b \<Longrightarrow> date_le b c \<Longrightarrow> date_lt a c"
  by (auto simp: date_lt_def date_le_def)

lemma date_le_lt_trans: "date_le a b \<Longrightarrow> date_lt b c \<Longrightarrow> date_lt a c"
  by (auto simp: date_lt_def date_le_def)

lemma date_lt_imp_le: "date_lt a b \<Longrightarrow> date_le a b"
  by (auto simp: date_lt_def date_le_def)

lemma date_le_cases: "date_le a b \<Longrightarrow> date_lt a b \<or> (a :: date) = b"
  using date_le_antisym [of a b] by (auto simp: date_le_iff_not_lt)

lemma days_in_month_bounds: "28 \<le> days_in_month y m" "days_in_month y m \<le> 31"
  by (simp_all add: days_in_month_def)

lemma next_day_gt: "next_day d = Inr n \<Longrightarrow> date_lt d n"
  by (auto simp: next_day_def date_lt_def split: if_splits)

lemma next_day_valid: "valid_date d \<Longrightarrow> next_day d = Inr n \<Longrightarrow> valid_date n"
  using days_in_month_bounds [of "year d" "month d + 1"] days_in_month_bounds [of "year d + 1" 1]
  by (auto simp: next_day_def valid_date_def split: if_splits)

lemma next_day_least:
  "valid_date x \<Longrightarrow> date_lt d x \<Longrightarrow> next_day d = Inr n \<Longrightarrow> date_le n x"
  by (auto simp: next_day_def valid_date_def date_lt_def date_le_def split: if_splits)

lemma next_day_defined:
  "valid_date d \<Longrightarrow> valid_date x \<Longrightarrow> date_lt d x \<Longrightarrow> \<exists>n. next_day d = Inr n"
  using days_in_month_bounds [of "year x" "month x"]
  by (auto simp: next_day_def valid_date_def date_lt_def)

lemma daterange_stop:
  "\<not> date_lt cur end \<Longrightarrow> daterange cur end = ([], None)"
  by (simp add: daterange.simps)

lemma daterange_step:
  "date_lt cur end \<Longrightarrow> next_day cur = Inr nxt \<Longrightarrow>
     daterange cur end = (cur # fst (daterange nxt end), snd (daterange nxt end))"
  by (subst daterange.simps) (simp add: split_beta)

lemma daterange_no_error:
  "valid_date cur \<Longrightarrow> valid_date end \<Longrightarrow> snd (daterange cur end) = None"
proof (induction cur "end" rule: daterange.induct)
  case (1 cur "end")
  show ?case
  proof (cases "date_lt cur end")
    case True
    with 1(2,3) obtain nxt where n: "next_day cur = Inr nxt"
      using next_day_defined by blast
    have "valid_date nxt" using 1(2) n by (rule next_day_valid)
    with 1(1) [OF True n] 1(3) have "snd (daterange nxt end) = None" by simp
    then show ?thesis using True n by (simp add: daterange_step)
  next
    case False
    then show ?thesis by (simp add: daterange_stop)
  qed
qed

lemma daterange_set:
  "valid_date cur \<Longrightarrow> valid_date end \<Longrightarrow>
     set (fst (daterange cur end)) = {d. valid_date d \<and> date_le cur d \<and> date_lt d end}"
proof (induction cur "end" rule: daterange.induct)
  case (1 cur "end")
  show ?case
  proof (cases "date_lt cur end")
    case True
    with 1(2,3) obtain nxt where n: "next_day cur = Inr nxt"
      using next_day_defined by blast
    have vn: "valid_date nxt" using 1(2) n by (rule next_day_valid)
    have ih: "set (fst (daterange nxt end)) = {d. valid_date d \<and> date_le nxt d \<and> date_lt d end}"
      using 1(1) [OF True n] vn 1(3) by simp
    have "{d. valid_date d \<and> date_le cur d \<and> date_lt d end}
        = insert cur {d. valid_date d \<and> date_le nxt d \<and> date_lt d end}"
    proof (intro set_eqI iffI)
      fix x
      assume "x \<in> {d. valid_date d \<and> date_le cur d \<and> date_lt d end}"
      then have x: "valid_date x" "date_le cur x" "date_lt x end" by simp_all
      from x(2) have "date_lt cur x \<or> cur = x" by (rule date_le_cases)
      then show "x \<in> insert cur {d. valid_date d \<and> date_le nxt d \<and> date_lt d end}"
        using x next_day_least [OF x(1) _ n] by auto
    next
      fix x
      assume "x \<in> insert cur {d. valid_date d \<and> date_le nxt d \<and> date_lt d end}"
      then consider "x = cur" | "valid_date x" "date_le nxt x" "date_lt x end" by auto
      then show "x \<in> {d. valid_date d \<and> date_le cur d \<and> date_lt d end}"
      proof cases
        case 1
        then show ?thesis using True \<open>valid_date cur\<close> by (simp add: date_le_refl)
      next
        case 2
        have "date_lt cur x" using next_day_gt [OF n] 2(2) by (rule date_lt_le_trans)
        then show ?thesis using 2 by (simp add: date_lt_imp_le)
      qed
    qed
    then show ?thesis using True n ih by (simp add: daterange_step)
  next
    case False
    have "{d. valid_date d \<and> date_le cur d \<and> date_lt d end} = {}"
      using False by (auto dest: date_le_lt_trans)
    then show ?thesis using False by (simp add: daterange_stop)
  qed
qed

lemma daterange_sorted:
  "sorted_wrt date_lt (fst (daterange cur end)) \<and> (\<forall>d \<in> set (fst (daterange cur end)). date_le cur d)"
proof (induction cur "end" rule: daterange.induct)
  case (1 cur "end")
  show ?case
  proof (cases "date_lt cur end")
    case True
    show ?thesis
    proof (cases "next_day cur")
      case (Inl e)
      then show ?thesis using True by (subst daterange.simps, subst (2) daterange.simps) (simp add: date_le_refl)
    next
      case (Inr nxt)
      note ih = 1 [OF True Inr]
      have lt: "date_lt cur nxt" using Inr by (rule next_day_gt)
      have "\<forall>d \<in> set (fst (daterange nxt end)). date_lt cur d"
        using ih lt by (auto dest: date_lt_le_trans)
      then show ?thesis using True Inr ih
        by (auto simp: daterange_step date_le_refl dest: date_lt_imp_le)
    qed
  next
    case False
    then show ?thesis by (simp add: daterange_stop)
  qed
qed

lemma daterange_split:
  "valid_date cur \<Longrightarrow> valid_date mid \<Longrightarrow> date_le cur mid \<Longrightarrow> date_le mid end \<Longrightarrow>
     fst (daterange cur end) = fst (daterange cur mid) @ fst (daterange mid end)"
proof (induction cur mid rule: daterange.induct)
  case (1 cur mid)
  show ?case
  proof (cases "date_lt cur mid")
    case True
    with 1(2,3) obtain nxt where n: "next_day cur = Inr nxt"
      using next_day_defined by blast
    have vn: "valid_date nxt" using 1(2) n by (rule next_day_valid)
    have le: "date_le nxt mid" using 1(3) True n by (rule next_day_least)
    have lt: "date_lt cur end" using True 1(5) by (rule date_lt_le_trans)
    from 1(1) [OF True n vn 1(3) le 1(5)] show ?thesis
      using True n lt by (simp add: daterange_step)
  next
    case False
    with 1(4) have "cur = mid" by (auto dest: date_le_cases)
    then show ?thesis using False by (simp add: daterange_stop)
  qed
qed

lemma daterange_one_night:
  assumes "next_day check_in = Inr check_out"
  shows "daterange check_in check_out = ([check_in], None)"
proof -
  have lt: "date_lt check_in check_out" using assms by (rule next_day_gt)
  have "\<not> date_lt check_out check_out" by (rule date_lt_irrefl)
  then show ?thesis using lt assms by (simp add: daterange_step daterange_stop)
qed

section \<open>The containment test\<close>

text \<open>
  C1 (as amended). For every day \<open>d\<close> and season \<open>s\<close> whose two boundaries are dates
  of the year of \<open>d\<close>: when the end boundary is strictly before the start boundary, the
  test treats the season as wrapping the year end, and \<open>d\<close> is contained exactly when
  \<open>d\<close> is on or after the start or on or before the end; otherwise (the end on or after
  the start, the two being equal included) \<open>d\<close> is contained exactly when it lies
  between the start and the end, both included. The comparison of the boundaries is
  the comparison of their (month, day) pairs, and the result decides what
  \<open>season_for_day\<close> returns for the one-season list.
\<close>

theorem season_containment:
  assumes "mk_date (year d) (start_month s) (start_day s) = Inr st"
    and "mk_date (year d) (end_month s) (end_day s) = Inr en"
  shows "season_matches d s =
           Inr (if date_lt en st then date_le st d \<or> date_le d en
                else date_le st d \<and> date_le d en)
         \<and> date_lt en st = md_lt (month en, day en) (month st, day st)
         \<and> season_for_day d [s] =
             Inr (if (if date_lt en st then date_le st d \<or> date_le d en
                      else date_le st d \<and> date_le d en) then Some s else None)"
proof -
  from assms have same_year: "year st = year d" "year en = year d"
    by (auto dest!: mk_date_Inr)
  have m: "season_matches d s =
           Inr (if date_lt en st then date_le st d \<or> date_le d en
                else date_le st d \<and> date_le d en)"
    using assms by (simp add: season_matches_def)
  have c: "date_lt en st = md_lt (month en, day en) (month st, day st)"
    using same_year by (simp add: date_lt_def md_lt_def)
  have f: "season_for_day d [s] =
             Inr (if (if date_lt en st then date_le st d \<or> date_le d en
                      else date_le st d \<and> date_le d en) then Some s else None)"
    by (simp add: m)
  from m c f show ?thesis by blast
qed

theorem season_containment_witness:
  "season_matches \<lparr>year = 2024, month = 1, day = 2\<rparr> winter_season = Inr True
   \<and> season_matches \<lparr>year = 2024, month = 6, day = 15\<rparr> winter_season = Inr False
   \<and> season_for_day \<lparr>year = 2024, month = 1, day = 2\<rparr> [winter_season] = Inr (Some winter_season)"
proof -
  have st: "mk_date 2024 (Some 12) (Some 20) = Inr \<lparr>year = 2024, month = 12, day = 20\<rparr>"
    by (simp add: mk_date_def c_int_def valid_date_def days_in_month_def)
  have en: "mk_date 2024 (Some 1) (Some 5) = Inr \<lparr>year = 2024, month = 1, day = 5\<rparr>"
    by (simp add: mk_date_def c_int_def valid_date_def days_in_month_def)
  have a: "season_matches \<lparr>year = 2024, month = 1, day = 2\<rparr> winter_season = Inr True"
    and c: "season_for_day \<lparr>year = 2024, month = 1, day = 2\<rparr> [winter_season] = Inr (Some winter_season)"
    using season_containment [of "\<lparr>year = 2024, month = 1, day = 2\<rparr>" winter_season
        "\<lparr>year = 2024, month = 12, day = 20\<rparr>" "\<lparr>year = 2024, month = 1, day = 5\<rparr>"] st en
    by (simp_all add: winter_season_def date_lt_def date_le_def)
  have b: "season_matches \<lparr>year = 2024, month = 6, day = 15\<rparr> winter_season = Inr False"
    using season_containment [of "\<lparr>year = 2024, month = 6, day = 15\<rparr>" winter_season
        "\<lparr>year = 2024, month = 12, day = 20\<rparr>" "\<lparr>year = 2024, month = 1, day = 5\<rparr>"] st en
    by (simp add: winter_season_def date_lt_def date_le_def)
  from a b c show ?thesis by blast
qed

text \<open>
  C1 as stated fails where the two boundaries are equal. The season 5 May to 5 May has
  its end "before or equal to" its start, so the claim's wrapping test
  (\<open>d \<ge> start \<or> d \<le> end\<close>) holds for 1 June 2023; the code takes the other branch and
  the day is not contained.
\<close>

theorem season_containment_counterexample:
  "mk_date 2023 (start_month one_day_season) (start_day one_day_season)
     = Inr \<lparr>year = 2023, month = 5, day = 5\<rparr>
   \<and> mk_date 2023 (end_month one_day_season) (end_day one_day_season)
     = Inr \<lparr>year = 2023, month = 5, day = 5\<rparr>
   \<and> date_le \<lparr>year = 2023, month = 5, day = 5\<rparr> \<lparr>year = 2023, month = 5, day = 5\<rparr>
   \<and> (date_le \<lparr>year = 2023, month = 5, day = 5\<rparr> \<lparr>year = 2023, month = 6, day = 1\<rparr>
      \<or> date_le \<lparr>year = 2023, month = 6, day = 1\<rparr> \<lparr>year = 2023, month = 5, day = 5\<rparr>)
   \<and> season_matches \<lparr>year = 2023, month = 6, day = 1\<rparr> one_day_season = Inr False
   \<and> season_for_day \<lparr>year = 2023, month = 6, day = 1\<rparr> [one_day_season] = Inr None"
  by (simp add: one_day_season_def season_matches_def mk_date_def c_int_def valid_date_def
      days_in_month_def date_lt_def date_le_def)

text \<open>
  C9 (as amended). A season whose end boundary equals its start boundary (same month,
  same day) is not treated as wrapping: in every year \<open>y\<close> in which that boundary is
  a date \<open>b\<close>, the test holds for \<open>b\<close> and for no other day of the year, so the
  season contains exactly one date of that year, the boundary itself, and
  \<open>season_for_day\<close> returns the season for that day only.
\<close>

theorem single_day_season:
  assumes "start_month s = Some m" and "end_month s = Some m"
    and "start_day s = Some k" and "end_day s = Some k"
    and "mk_date y (Some m) (Some k) = Inr b"
  shows "(year d = y \<longrightarrow> season_matches d s = Inr (d = b))
         \<and> {d. year d = y \<and> season_matches d s = Inr True} = {b}
         \<and> (year d = y \<longrightarrow> season_for_day d [s] = Inr (if d = b then Some s else None))"
proof -
  have eq: "(date_le b x \<and> date_le x b) = (x = b)" for x
    using date_le_antisym [of b x] date_le_refl [of b] by auto
  have m: "season_matches x s = Inr (x = b)" if "year x = y" for x
    using assms that by (simp add: season_matches_def eq date_lt_irrefl)
  have yb: "year b = y"
    using assms(5) by (auto dest!: mk_date_Inr)
  have set_eq: "{d. year d = y \<and> season_matches d s = Inr True} = {b}"
    using m yb by auto
  have f: "season_for_day x [s] = Inr (if x = b then Some s else None)" if "year x = y" for x
    using m [OF that] by simp
  from m set_eq f show ?thesis by blast
qed

theorem single_day_season_witness:
  "season_matches \<lparr>year = 2023, month = 5, day = 5\<rparr> one_day_season = Inr True
   \<and> season_matches \<lparr>year = 2023, month = 5, day = 6\<rparr> one_day_season = Inr False
   \<and> {d. year d = 2023 \<and> season_matches d one_day_season = Inr True}
       = {\<lparr>year = 2023, month = 5, day = 5\<rparr>}
   \<and> {d. year d = 2024 \<and> season_matches d leap_day_season = Inr True}
       = {\<lparr>year = 2024, month = 2, day = 29\<rparr>}"
proof -
  have b: "mk_date 2023 (Some 5) (Some 5) = Inr \<lparr>year = 2023, month = 5, day = 5\<rparr>"
    by (simp add: mk_date_def c_int_def valid_date_def days_in_month_def)
  have s: "start_month one_day_season = Some 5" "end_month one_day_season = Some 5"
    "start_day one_day_season = Some 5" "end_day one_day_season = Some 5"
    by (simp_all add: one_day_season_def)
  note t = single_day_season [OF s b]
  have a1: "season_matches \<lparr>year = 2023, month = 5, day = 5\<rparr> one_day_season = Inr True"
    using t [of "\<lparr>year = 2023, month = 5, day = 5\<rparr>"] by simp
  have a2: "season_matches \<lparr>year = 2023, month = 5, day = 6\<rparr> one_day_season = Inr False"
    using t [of "\<lparr>year = 2023, month = 5, day = 6\<rparr>"] by simp
  have a3: "{d. year d = 2023 \<and> season_matches d one_day_season = Inr True}
       = {\<lparr>year = 2023, month = 5, day = 5\<rparr>}"
    using t [of "\<lparr>year = 2023, month = 5, day = 5\<rparr>"] by blast
  have lb: "mk_date 2024 (Some 2) (Some 29) = Inr \<lparr>year = 2024, month = 2, day = 29\<rparr>"
    by (simp add: mk_date_def c_int_def valid_date_def days_in_month_def is_leap_def)
  have ls: "start_month leap_day_season = Some 2" "end_month leap_day_season = Some 2"
    "start_day leap_day_season = Some 29" "end_day leap_day_season = Some 29"
    by (simp_all add: leap_day_season_def)
  have a4: "{d. year d = 2024 \<and> season_matches d leap_day_season = Inr True}
       = {\<lparr>year = 2024, month = 2, day = 29\<rparr>}"
    using single_day_season [OF ls lb, of "\<lparr>year = 2024, month = 2, day = 29\<rparr>"] by blast
  from a1 a2 a3 a4 show ?thesis by blast
qed

text \<open>
  C9 as stated promises one day in every year. The season 29 February to 29 February
  has equal boundaries, but 2023 has no 29 February: the boundary is not a date of that
  year, the test ends in the constructor's \<^verbatim>\<open>ValueError\<close> for every day of 2023, and
  the season contains no day of 2023.
\<close>

theorem single_day_season_counterexample:
  "start_month leap_day_season = end_month leap_day_season
   \<and> start_day leap_day_season = end_day leap_day_season
   \<and> mk_date 2023 (start_month leap_day_season) (start_day leap_day_season) = Inl ValueError
   \<and> season_matches \<lparr>year = 2023, month = 2, day = 28\<rparr> leap_day_season = Inl ValueError
   \<and> season_matches \<lparr>year = 2023, month = 3, day = 1\<rparr> leap_day_season = Inl ValueError
   \<and> {d. year d = 2023 \<and> season_matches d leap_day_season = Inr True} = {}"
proof -
  have mk: "mk_date 2023 (start_month leap_day_season) (start_day leap_day_season) = Inl ValueError"
    by (simp add: leap_day_season_def mk_date_def c_int_def valid_date_def days_in_month_def
        is_leap_def)
  have all: "season_matches d leap_day_season = Inl ValueError" if "year d = 2023" for d
    using mk that by (simp add: season_matches_def)
  have e: "{d. year d = 2023 \<and> season_matches d leap_day_season = Inr True} = {}"
    using all by auto
  have f: "start_month leap_day_season = end_month leap_day_season"
    "start_day leap_day_season = end_day leap_day_season"
    by (simp_all add: leap_day_season_def)
  from mk all [of "\<lparr>year = 2023, month = 2, day = 28\<rparr>"]
    all [of "\<lparr>year = 2023, month = 3, day = 1\<rparr>"] e f
  show ?thesis by simp
qed

section \<open>The season lookup and the days of a stay\<close>

lemma season_for_day_first_match:
  assumes "\<forall>p \<in> set pre. season_matches d p = Inr False" "season_matches d s = Inr True"
  shows "season_for_day d (pre @ s # post) = Inr (Some s)"
  using assms by (induction pre) simp_all

lemma price_days_append:
  "price_days seasons r t (xs @ ys) =
     (case price_days seasons r t xs of Inl e \<Rightarrow> Inl e | Inr t' \<Rightarrow> price_days seasons r t' ys)"
  by (induction xs arbitrary: t) (simp_all split: sum.splits)

lemma private_room_multiplier: "room_multiplier private_room = Fin 1"
  by (simp add: room_multiplier_def private_room_def)

lemma to_double_zero [simp]: "to_double 0 = Fin 0"
  by (simp add: to_double_def round_nearest_def)

lemma to_double_fixed: "is_double x \<Longrightarrow> to_double x = Fin x"
proof -
  assume a: "is_double x"
  then have "\<not> 2 powi 1024 \<le> x" "\<not> x \<le> - (2 powi 1024)" by (simp_all add: is_double_def) linarith+
  with a show ?thesis by (simp add: to_double_def is_double_def)
qed

lemmas concrete_season_simps =
  season_matches_def mk_date_def c_int_def valid_date_def days_in_month_def is_leap_def
  date_lt_def date_le_def academic_year_def summer_def holiday_def

text \<open>
  C4. For every day \<open>d\<close> and every season list in which the season \<open>s\<close> is the first
  whose range contains \<open>d\<close> (the seasons before it are tested and do not contain
  \<open>d\<close>), \<open>season_for_day\<close> returns \<open>s\<close> whatever seasons follow it, matching
  or not; the base rate of the day is the rate of \<open>s\<close> (0.0 when \<open>s\<close> has none), and
  the day adds that rate times the room's multiplier to the running total.
\<close>

theorem first_match_tie_break:
  assumes "\<forall>p \<in> set pre. season_matches d p = Inr False"
    and "season_matches d s = Inr True"
  shows "season_for_day d (pre @ s # post) = Inr (Some s)
         \<and> base_rate (Some s) = (case rate s of None \<Rightarrow> Fin 0 | Some x \<Rightarrow> x)
         \<and> price_days (pre @ s # post) r t [d]
             = Inr (fadd t (fmul (case rate s of None \<Rightarrow> Fin 0 | Some x \<Rightarrow> x) (room_multiplier r)))"
proof -
  have f: "season_for_day d (pre @ s # post) = Inr (Some s)"
    using assms by (rule season_for_day_first_match)
  have b: "base_rate (Some s) = (case rate s of None \<Rightarrow> Fin 0 | Some x \<Rightarrow> x)"
    by (simp add: base_rate_def)
  have p: "price_days (pre @ s # post) r t [d]
             = Inr (fadd t (fmul (case rate s of None \<Rightarrow> Fin 0 | Some x \<Rightarrow> x) (room_multiplier r)))"
    by (simp add: f b)
  from f b p show ?thesis by blast
qed

theorem first_match_tie_break_witness:
  "season_matches \<lparr>year = 2024, month = 12, day = 25\<rparr> summer = Inr False
   \<and> season_matches \<lparr>year = 2024, month = 12, day = 25\<rparr> academic_year = Inr True
   \<and> season_matches \<lparr>year = 2024, month = 12, day = 25\<rparr> holiday = Inr True
   \<and> season_for_day \<lparr>year = 2024, month = 12, day = 25\<rparr> [summer, academic_year, holiday]
       = Inr (Some academic_year)
   \<and> base_rate (Some academic_year) = Fin 45
   \<and> price_days [summer, academic_year, holiday] private_room (Fin 0)
        [\<lparr>year = 2024, month = 12, day = 25\<rparr>] = Inr (Fin 45)"
proof -
  let ?d = "\<lparr>year = 2024, month = 12, day = 25\<rparr>"
  have a: "season_matches ?d summer = Inr False"
    by (simp add: concrete_season_simps)
  have b: "season_matches ?d academic_year = Inr True"
    by (simp add: concrete_season_simps)
  have c: "season_matches ?d holiday = Inr True"
    by (simp add: concrete_season_simps)
  have pre: "\<forall>p \<in> set [summer]. season_matches ?d p = Inr False" using a by simp
  note t = first_match_tie_break [OF pre b, of "[holiday]" private_room "Fin 0", unfolded append.simps]
  have r: "rate academic_year = Some (Fin 45)" by (simp add: academic_year_def)
  have m: "room_multiplier private_room = Fin 1" by (simp add: room_multiplier_def private_room_def)
  have e1: "to_double 45 = Fin 45"
    by (rule to_double_eval [where e = 5 and n = "45 * 2 ^ 47"]) simp_all
  from t have d: "season_for_day ?d [summer, academic_year, holiday] = Inr (Some academic_year)"
    by blast
  from t have e: "base_rate (Some academic_year) = Fin 45"
    by (simp add: r del: season_for_day.simps price_days.simps)
  from t have f: "price_days [summer, academic_year, holiday] private_room (Fin 0) [?d] = Inr (Fin 45)"
    by (simp add: r m e1 del: season_for_day.simps price_days.simps)
  from a b c d e f show ?thesis by blast
qed

text \<open>
  With the seeded seasons in their stored order, Academic Year comes first and contains
  every day from 20 to 31 December, so the Holiday season is never the one returned.
\<close>

lemma seeded_holiday_is_shadowed:
  assumes "1 \<le> y" "y \<le> 9999" "20 \<le> k" "k \<le> 31"
  shows "season_for_day \<lparr>year = y, month = 12, day = k\<rparr> seed_seasons = Inr (Some academic_year)"
  using assms by (simp add: seed_seasons_def concrete_season_simps)

lemma price_days_spec:
  "price_days seasons r t ds = spec_sum t (map (spec_day_price seasons r) ds)"
  by (induction ds arbitrary: t)
    (auto simp: spec_day_price_def base_rate_def split: sum.splits option.splits)

lemma compute_price_spec:
  assumes "valid_date check_in" and "valid_date check_out"
  shows "compute_price seasons r check_in check_out
           = (case spec_sum (Fin 0)
                     (map (spec_day_price seasons r) (fst (daterange check_in check_out))) of
                Inl e \<Rightarrow> Inl e | Inr tot \<Rightarrow> Inr (round2 tot))"
  using daterange_no_error [OF assms]
  by (simp add: compute_price_def price_days_spec split_beta split: sum.splits)

lemma may_dates:
  "valid_date \<lparr>year = 2024, month = 5, day = 4\<rparr>"
  "valid_date \<lparr>year = 2024, month = 5, day = 5\<rparr>"
  "valid_date \<lparr>year = 2024, month = 5, day = 6\<rparr>"
  "date_lt \<lparr>year = 2024, month = 5, day = 4\<rparr> \<lparr>year = 2024, month = 5, day = 5\<rparr>"
  "date_lt \<lparr>year = 2024, month = 5, day = 5\<rparr> \<lparr>year = 2024, month = 5, day = 6\<rparr>"
  "next_day \<lparr>year = 2024, month = 5, day = 4\<rparr> = Inr \<lparr>year = 2024, month = 5, day = 5\<rparr>"
  "next_day \<lparr>year = 2024, month = 5, day = 5\<rparr> = Inr \<lparr>year = 2024, month = 5, day = 6\<rparr>"
  by (simp_all add: valid_date_def days_in_month_def date_lt_def next_day_def)

lemma one_day_season_prices:
  "spec_day_price [one_day_season] private_room \<lparr>year = 2024, month = 5, day = 4\<rparr> = Inr (Fin 0)"
  "spec_day_price [one_day_season] private_room \<lparr>year = 2024, month = 5, day = 5\<rparr> = Inr (Fin 20)"
proof -
  have td: "to_double 20 = Fin 20"
    by (rule to_double_eval [where e = 4 and n = "20 * 2 ^ 48"]) simp_all
  show "spec_day_price [one_day_season] private_room \<lparr>year = 2024, month = 5, day = 4\<rparr> = Inr (Fin 0)"
    by (simp add: spec_day_price_def one_day_season_def season_matches_def mk_date_def c_int_def
        valid_date_def days_in_month_def date_lt_def date_le_def private_room_multiplier)
  show "spec_day_price [one_day_season] private_room \<lparr>year = 2024, month = 5, day = 5\<rparr> = Inr (Fin 20)"
    by (simp add: spec_day_price_def one_day_season_def season_matches_def mk_date_def c_int_def
        valid_date_def days_in_month_def date_lt_def date_le_def private_room_multiplier td)
qed

lemma round2_twenty: "round2 (fadd (Fin 0) (Fin 20)) = Fin 20" "round2 (fadd (Fin 0) (Fin 0)) = Fin 0"
proof -
  have td: "to_double 20 = Fin 20"
    by (rule to_double_eval [where e = 4 and n = "20 * 2 ^ 48"]) simp_all
  have "round_half_even (20 * 100) = 2000" by (rule rhe_eval) simp_all
  then show "round2 (fadd (Fin 0) (Fin 20)) = Fin 20" by (simp add: td)
  show "round2 (fadd (Fin 0) (Fin 0)) = Fin 0" by (simp add: round_half_even_def)
qed

text \<open>
  C5. For dates \<open>check_in < check_out\<close>, the price is the rounded sum of the day
  prices of the days the generator yields, taken in order, and these days are exactly
  the dates \<open>d\<close> with \<open>check_in \<le> d < check_out\<close>, each once and in increasing
  order, starting with \<open>check_in\<close>. The day \<open>check_out\<close> is not among them, and
  the price does not depend on what the season lookup gives for \<open>check_out\<close> or for
  any day outside the range. When \<open>check_out\<close> is the day after \<open>check_in\<close>, the
  only day priced is \<open>check_in\<close> and the price is its day price, rounded.
\<close>

theorem exclusive_checkout:
  assumes "valid_date check_in" and "valid_date check_out" and "date_lt check_in check_out"
  shows "compute_price seasons r check_in check_out
           = (case spec_sum (Fin 0)
                     (map (spec_day_price seasons r) (fst (daterange check_in check_out))) of
                Inl e \<Rightarrow> Inl e | Inr tot \<Rightarrow> Inr (round2 tot))
         \<and> set (fst (daterange check_in check_out))
             = {d. valid_date d \<and> date_le check_in d \<and> date_lt d check_out}
         \<and> sorted_wrt date_lt (fst (daterange check_in check_out))
         \<and> check_out \<notin> set (fst (daterange check_in check_out))
         \<and> hd (fst (daterange check_in check_out)) = check_in
         \<and> (next_day check_in = Inr check_out
              \<longrightarrow> fst (daterange check_in check_out) = [check_in]
                \<and> compute_price seasons r check_in check_out
                    = (case spec_day_price seasons r check_in of
                         Inl e \<Rightarrow> Inl e | Inr p \<Rightarrow> Inr (round2 (fadd (Fin 0) p))))
         \<and> ((\<forall>d. valid_date d \<and> date_le check_in d \<and> date_lt d check_out
                  \<longrightarrow> season_for_day d seasons' = season_for_day d seasons)
              \<longrightarrow> compute_price seasons' r check_in check_out
                    = compute_price seasons r check_in check_out)"
proof -
  have c: "compute_price seasons r check_in check_out
           = (case spec_sum (Fin 0)
                     (map (spec_day_price seasons r) (fst (daterange check_in check_out))) of
                Inl e \<Rightarrow> Inl e | Inr tot \<Rightarrow> Inr (round2 tot))" for seasons
    using assms(1,2) by (rule compute_price_spec)
  have s: "set (fst (daterange check_in check_out))
             = {d. valid_date d \<and> date_le check_in d \<and> date_lt d check_out}"
    using assms(1,2) by (rule daterange_set)
  have o: "sorted_wrt date_lt (fst (daterange check_in check_out))"
    using daterange_sorted [of check_in check_out] by simp
  have n: "check_out \<notin> set (fst (daterange check_in check_out))"
    by (simp add: s date_lt_irrefl)
  obtain nxt where nx: "next_day check_in = Inr nxt"
    using next_day_defined [OF assms] by blast
  have h: "hd (fst (daterange check_in check_out)) = check_in"
    using assms(3) nx by (simp add: daterange_step)
  have one: "fst (daterange check_in check_out) = [check_in]
                \<and> compute_price seasons r check_in check_out
                    = (case spec_day_price seasons r check_in of
                         Inl e \<Rightarrow> Inl e | Inr p \<Rightarrow> Inr (round2 (fadd (Fin 0) p)))"
    if "next_day check_in = Inr check_out"
  proof -
    have l: "fst (daterange check_in check_out) = [check_in]"
      using that by (simp add: daterange_one_night)
    show ?thesis by (simp add: c l split: sum.splits)
  qed
  have ind: "compute_price seasons' r check_in check_out
                    = compute_price seasons r check_in check_out"
    if same: "\<forall>d. valid_date d \<and> date_le check_in d \<and> date_lt d check_out
                  \<longrightarrow> season_for_day d seasons' = season_for_day d seasons"
  proof -
    have "spec_day_price seasons' r d = spec_day_price seasons r d"
      if "d \<in> set (fst (daterange check_in check_out))" for d
      using that same by (simp add: s spec_day_price_def)
    then have "map (spec_day_price seasons' r) (fst (daterange check_in check_out))
        = map (spec_day_price seasons r) (fst (daterange check_in check_out))"
      by (intro map_cong) simp_all
    then show ?thesis by (simp only: c)
  qed
  from c [of seasons] s o n h one ind show ?thesis by blast
qed

theorem exclusive_checkout_witness:
  "fst (daterange \<lparr>year = 2024, month = 5, day = 4\<rparr> \<lparr>year = 2024, month = 5, day = 5\<rparr>)
     = [\<lparr>year = 2024, month = 5, day = 4\<rparr>]
   \<and> season_matches \<lparr>year = 2024, month = 5, day = 5\<rparr> one_day_season = Inr True
   \<and> compute_price [one_day_season] private_room
        \<lparr>year = 2024, month = 5, day = 4\<rparr> \<lparr>year = 2024, month = 5, day = 5\<rparr> = Inr (Fin 0)
   \<and> compute_price [one_day_season] private_room
        \<lparr>year = 2024, month = 5, day = 5\<rparr> \<lparr>year = 2024, month = 5, day = 6\<rparr> = Inr (Fin 20)"
proof -
  note t1 = exclusive_checkout [OF may_dates(1) may_dates(2) may_dates(4),
      of "[one_day_season]" private_room "[one_day_season]"]
  note t2 = exclusive_checkout [OF may_dates(2) may_dates(3) may_dates(5),
      of "[one_day_season]" private_room "[one_day_season]"]
  have m: "season_matches \<lparr>year = 2024, month = 5, day = 5\<rparr> one_day_season = Inr True"
    by (simp add: one_day_season_def season_matches_def mk_date_def c_int_def
        valid_date_def days_in_month_def date_lt_def date_le_def)
  from t1 may_dates(6)
  have a: "fst (daterange \<lparr>year = 2024, month = 5, day = 4\<rparr> \<lparr>year = 2024, month = 5, day = 5\<rparr>)
     = [\<lparr>year = 2024, month = 5, day = 4\<rparr>]" by blast
  from t1 may_dates(6)
  have "compute_price [one_day_season] private_room
        \<lparr>year = 2024, month = 5, day = 4\<rparr> \<lparr>year = 2024, month = 5, day = 5\<rparr>
      = (case spec_day_price [one_day_season] private_room \<lparr>year = 2024, month = 5, day = 4\<rparr> of
           Inl e \<Rightarrow> Inl e | Inr p \<Rightarrow> Inr (round2 (fadd (Fin 0) p)))" by blast
  then have b: "compute_price [one_day_season] private_room
        \<lparr>year = 2024, month = 5, day = 4\<rparr> \<lparr>year = 2024, month = 5, day = 5\<rparr> = Inr (Fin 0)"
    by (simp only: one_day_season_prices round2_twenty sum.case)
  from t2 may_dates(7)
  have "compute_price [one_day_season] private_room
        \<lparr>year = 2024, month = 5, day = 5\<rparr> \<lparr>year = 2024, month = 5, day = 6\<rparr>
      = (case spec_day_price [one_day_season] private_room \<lparr>year = 2024, month = 5, day = 5\<rparr> of
           Inl e \<Rightarrow> Inl e | Inr p \<Rightarrow> Inr (round2 (fadd (Fin 0) p)))" by blast
  then have c: "compute_price [one_day_season] private_room
        \<lparr>year = 2024, month = 5, day = 5\<rparr> \<lparr>year = 2024, month = 5, day = 6\<rparr> = Inr (Fin 20)"
    by (simp only: one_day_season_prices round2_twenty sum.case)
  from a m b c show ?thesis by blast
qed

text \<open>
  C8. When the first season that contains the day \<open>d\<close> has no rate field, the lookup
  still returns that season (it does not fall through to a later one), the base rate of
  the day is 0.0, and the day changes the running total exactly as a day that no season
  contains does; for a finite multiplier the total is left as it was.
\<close>

theorem missing_rate_is_zero:
  assumes "\<forall>p \<in> set pre. season_matches d p = Inr False"
    and "season_matches d s = Inr True"
    and "rate s = None"
  shows "season_for_day d (pre @ s # post) = Inr (Some s)
         \<and> base_rate (Some s) = Fin 0
         \<and> price_days (pre @ s # post) r t [d] = price_days [] r t [d]
         \<and> (is_double x \<and> room_multiplier r = Fin m
              \<longrightarrow> price_days (pre @ s # post) r (Fin x) [d] = Inr (Fin x))"
proof -
  have f: "season_for_day d (pre @ s # post) = Inr (Some s)"
    using assms(1,2) by (rule season_for_day_first_match)
  have b: "base_rate (Some s) = Fin 0" using assms(3) by (simp add: base_rate_def)
  have p: "price_days (pre @ s # post) r t [d] = price_days [] r t [d]" for t
    using assms(3) by (simp add: f base_rate_def)
  have z: "price_days (pre @ s # post) r (Fin x) [d] = Inr (Fin x)"
    if "is_double x" "room_multiplier r = Fin m"
    using that assms(3) by (simp add: f base_rate_def to_double_fixed)
  from f b p z show ?thesis by blast
qed

theorem missing_rate_is_zero_witness:
  "season_for_day \<lparr>year = 2024, month = 8, day = 10\<rparr> [unpriced_season, summer]
     = Inr (Some unpriced_season)
   \<and> season_matches \<lparr>year = 2024, month = 8, day = 10\<rparr> summer = Inr True
   \<and> price_days [unpriced_season, summer] entire_apartment (Fin 0)
        [\<lparr>year = 2024, month = 8, day = 10\<rparr>] = Inr (Fin 0)"
proof -
  let ?d = "\<lparr>year = 2024, month = 8, day = 10\<rparr>"
  have a: "season_matches ?d unpriced_season = Inr True"
    by (simp add: concrete_season_simps unpriced_season_def)
  have b: "season_matches ?d summer = Inr True"
    by (simp add: concrete_season_simps)
  have r: "rate unpriced_season = None" by (simp add: unpriced_season_def)
  have pre: "\<forall>p \<in> set []. season_matches ?d p = Inr False" by simp
  have m: "room_multiplier entire_apartment = Fin (3152519739159347 / 2251799813685248)"
    unfolding room_multiplier_def entire_apartment_def
    by simp (rule to_double_eval [where e = 0 and n = 6305039478318694], simp_all)
  have z: "is_double 0" by (simp add: is_double_def round_nearest_def)
  from missing_rate_is_zero [OF pre a r, of "[summer]" entire_apartment "Fin 0" 0
      "3152519739159347 / 2251799813685248"] z m b
  show ?thesis by simp
qed


section \<open>The price of a stay\<close>

lemma daterange_three:
  assumes "date_lt a d" "next_day a = Inr b" "next_day b = Inr c" "next_day c = Inr d"
  shows "daterange a d = ([a, b, c], None)"
proof -
  have bd: "date_lt b d" "date_lt c d"
    using assms(3,4) by (auto dest!: next_day_gt intro: date_lt_trans)
  have "\<not> date_lt d d" by (rule date_lt_irrefl)
  then show ?thesis using assms bd by (simp add: daterange_step daterange_stop)
qed

lemma entire_apartment_multiplier:
  "room_multiplier entire_apartment = Fin (3152519739159347 / 2251799813685248)"
  unfolding room_multiplier_def entire_apartment_def
  by simp (rule to_double_eval [where e = 0 and n = 6305039478318694], simp_all)

lemma november_academic:
  assumes "1 \<le> y" "y \<le> 9999" "1 \<le> k" "k \<le> 30"
  shows "season_for_day \<lparr>year = y, month = 11, day = k\<rparr> scenario_seasons = Inr (Some academic_year)"
  using assms by (simp add: scenario_seasons_def concrete_season_simps)

lemma all_year_matches:
  assumes "valid_date d"
  shows "season_matches d all_year = Inr True"
proof -
  let ?st = "\<lparr>year = year d, month = 1, day = 1\<rparr>"
  let ?en = "\<lparr>year = year d, month = 12, day = 31\<rparr>"
  have st: "mk_date (year d) (Some 1) (Some 1) = Inr ?st"
    and en: "mk_date (year d) (Some 12) (Some 31) = Inr ?en"
    using assms by (simp_all add: mk_date_def c_int_def valid_date_def days_in_month_def)
  have le: "date_le ?st d" "date_le d ?en" "\<not> date_lt ?en ?st"
    using assms days_in_month_bounds [of "year d" "month d"]
    by (auto simp: date_le_def date_lt_def valid_date_def)
  show ?thesis
    by (simp add: season_matches_def all_year_def st en le)
qed

lemma january_days:
  "daterange \<lparr>year = 2024, month = 1, day = 1\<rparr> \<lparr>year = 2024, month = 1, day = 2\<rparr>
     = ([\<lparr>year = 2024, month = 1, day = 1\<rparr>], None)"
  "daterange \<lparr>year = 2024, month = 1, day = 2\<rparr> \<lparr>year = 2024, month = 1, day = 3\<rparr>
     = ([\<lparr>year = 2024, month = 1, day = 2\<rparr>], None)"
  "daterange \<lparr>year = 2024, month = 1, day = 1\<rparr> \<lparr>year = 2024, month = 1, day = 3\<rparr>
     = ([\<lparr>year = 2024, month = 1, day = 1\<rparr>, \<lparr>year = 2024, month = 1, day = 2\<rparr>], None)"
  by (simp_all add: daterange_step daterange_stop date_lt_def next_day_def days_in_month_def)

lemma january_valid:
  "valid_date \<lparr>year = 2024, month = 1, day = 1\<rparr>"
  "valid_date \<lparr>year = 2024, month = 1, day = 2\<rparr>"
  "valid_date \<lparr>year = 2024, month = 1, day = 3\<rparr>"
  by (simp_all add: valid_date_def days_in_month_def)

lemma all_year_rate: "base_rate (Some all_year) = Fin (81 / 8)"
  by (simp add: base_rate_def all_year_def)

lemma one_night_total: "to_double (81 / 8) = Fin (81 / 8)"
  by (rule to_double_eval [where e = 3 and n = "81 * 2 ^ 46"]) simp_all

lemma two_nights_total: "to_double (81 / 4) = Fin (81 / 4)"
  by (rule to_double_eval [where e = 4 and n = "81 * 2 ^ 46"]) simp_all

lemma one_night_rounded: "round2 (Fin (81 / 8)) = Fin (5697053528623677 / 562949953421312)"
proof -
  have "(81 / 8 * 100 :: rat) = of_int 1012 + 1 / 2" by simp
  then have "round_half_even (81 / 8 * 100) = 1012" by (simp only: rhe_tie) simp
  moreover have "to_double (1012 / 100) = Fin (5697053528623677 / 562949953421312)"
    by (rule to_double_eval [where e = 3 and n = 5697053528623677]) simp_all
  ultimately show ?thesis by simp
qed

lemma two_nights_rounded: "round2 (Fin (81 / 4)) = Fin (81 / 4)"
proof -
  have "round_half_even (81 / 4 * 100) = 2025" by (rule rhe_eval) simp_all
  moreover have "to_double (2025 / 100) = Fin (81 / 4)"
    by (rule to_double_eval [where e = 4 and n = "81 * 2 ^ 46"]) simp_all
  ultimately show ?thesis by simp
qed

lemma rounded_sum:
  "fadd (Fin (5697053528623677 / 562949953421312)) (Fin (5697053528623677 / 562949953421312))
     = Fin (5697053528623677 / 281474976710656)"
  unfolding fadd.simps
  by (rule to_double_eval [where e = 4 and n = 5697053528623677]) simp_all

lemma all_year_one_night:
  "compute_price [all_year] private_room
     \<lparr>year = 2024, month = 1, day = 1\<rparr> \<lparr>year = 2024, month = 1, day = 2\<rparr>
     = Inr (Fin (5697053528623677 / 562949953421312))"
  "compute_price [all_year] private_room
     \<lparr>year = 2024, month = 1, day = 2\<rparr> \<lparr>year = 2024, month = 1, day = 3\<rparr>
     = Inr (Fin (5697053528623677 / 562949953421312))"
  by (simp_all add: compute_price_def january_days all_year_matches january_valid all_year_rate
      private_room_multiplier one_night_total one_night_rounded del: round2.simps)

lemma all_year_two_nights:
  "compute_price [all_year] private_room
     \<lparr>year = 2024, month = 1, day = 1\<rparr> \<lparr>year = 2024, month = 1, day = 3\<rparr> = Inr (Fin (81 / 4))"
  by (simp add: compute_price_def january_days all_year_matches january_valid all_year_rate
      private_room_multiplier one_night_total two_nights_total two_nights_rounded
      del: round2.simps)

text \<open>
  C6. With the seasons Academic Year (1 October to 30 June, rate 45.0) and Summer
  (1 July to 30 September, rate 35.0), in this order, and a room of multiplier 1.4,
  the stay from 1 November to 4 November of any year costs exactly 189.0. Each night
  costs \<open>45.0 * 1.4\<close>, which is a little less than 63 in binary floating point; the
  three nights add up to a little less than 189, and the final rounding gives 189.
\<close>

theorem november_scenario:
  assumes "1 \<le> y" and "y \<le> 9999"
  shows "compute_price scenario_seasons entire_apartment
           \<lparr>year = y, month = 11, day = 1\<rparr> \<lparr>year = y, month = 11, day = 4\<rparr> = Inr (Fin 189)"
proof -
  let ?d = "\<lambda>k. \<lparr>year = y, month = 11, day = k\<rparr>"
  have days: "daterange (?d 1) (?d 4) = ([?d 1, ?d 2, ?d 3], None)"
    by (rule daterange_three) (simp_all add: date_lt_def next_day_def days_in_month_def)
  have s: "season_for_day (?d 1) scenario_seasons = Inr (Some academic_year)"
    "season_for_day (?d 2) scenario_seasons = Inr (Some academic_year)"
    "season_for_day (?d 3) scenario_seasons = Inr (Some academic_year)"
    using assms by (simp_all add: november_academic)
  have b: "base_rate (Some academic_year) = Fin 45"
    by (simp add: base_rate_def academic_year_def)
  define p :: rat where "p = 8866461766385663 / 140737488355328"
  have night: "fmul (Fin 45) (Fin (3152519739159347 / 2251799813685248)) = Fin p"
    unfolding fmul.simps p_def
    by (rule to_double_eval [where e = 5 and n = 8866461766385663]) simp_all
  have t1: "fadd (Fin 0) (Fin p) = Fin p"
    unfolding fadd.simps p_def
    by (rule to_double_eval [where e = 5 and n = 8866461766385663]) simp_all
  have t2: "fadd (Fin p) (Fin p) = Fin (8866461766385663 / 70368744177664)"
    unfolding fadd.simps p_def
    by (rule to_double_eval [where e = 6 and n = 8866461766385663]) simp_all
  have t3: "fadd (Fin (8866461766385663 / 70368744177664)) (Fin p)
              = Fin (6649846324789247 / 35184372088832)"
    unfolding fadd.simps p_def
    by (rule to_double_eval [where e = 7 and n = 6649846324789247]) simp_all
  have "round_half_even (6649846324789247 / 35184372088832 * 100) = 18900"
    by (rule rhe_eval) simp_all
  moreover have "to_double (18900 / 100) = Fin 189"
    by (rule to_double_eval [where e = 7 and n = "189 * 2 ^ 45"]) simp_all
  ultimately have r: "round2 (Fin (6649846324789247 / 35184372088832)) = Fin 189" by simp
  have "price_days scenario_seasons entire_apartment (Fin 0) [?d 1, ?d 2, ?d 3]
          = Inr (Fin (6649846324789247 / 35184372088832))"
    by (simp add: s b entire_apartment_multiplier night t1 t2 t3 del: fmul.simps fadd.simps)
  then show ?thesis
    by (simp add: compute_price_def days r del: round2.simps)
qed

theorem november_scenario_witness:
  "compute_price scenario_seasons entire_apartment
     \<lparr>year = 2024, month = 11, day = 1\<rparr> \<lparr>year = 2024, month = 11, day = 4\<rparr> = Inr (Fin 189)"
  using november_scenario [of 2024] by simp

text \<open>
  C3 (as amended). For dates \<open>d1 < d2 < d3\<close>, the days priced for the whole stay are
  the days of the first sub-stay followed by the days of the second; the total of the
  whole stay before rounding is the accumulation over the second sub-stay continued
  from the total before rounding of the first; and the price of the whole stay is that
  total rounded to two places.
\<close>

theorem stay_splits:
  assumes "valid_date d1" and "valid_date d2" and "valid_date d3"
    and "date_lt d1 d2" and "date_lt d2 d3"
  shows "fst (daterange d1 d3) = fst (daterange d1 d2) @ fst (daterange d2 d3)
         \<and> unrounded_total seasons r (Fin 0) d1 d3
             = (case unrounded_total seasons r (Fin 0) d1 d2 of
                  Inl e \<Rightarrow> Inl e
                | Inr t \<Rightarrow> unrounded_total seasons r t d2 d3)
         \<and> compute_price seasons r d1 d3
             = (case unrounded_total seasons r (Fin 0) d1 d3 of
                  Inl e \<Rightarrow> Inl e
                | Inr t \<Rightarrow> Inr (round2 t))"
proof -
  have le: "date_le d1 d2" "date_le d2 d3"
    using assms(4,5) by (simp_all add: date_lt_imp_le)
  have days: "fst (daterange d1 d3) = fst (daterange d1 d2) @ fst (daterange d2 d3)"
    using assms(1,2) le by (rule daterange_split)
  have u: "unrounded_total seasons r (Fin 0) d1 d3
             = (case unrounded_total seasons r (Fin 0) d1 d2 of
                  Inl e \<Rightarrow> Inl e
                | Inr t \<Rightarrow> unrounded_total seasons r t d2 d3)"
    by (simp add: unrounded_total_def days price_days_append cong: sum.case_cong)
  have stop: "snd (daterange d1 d3) = None"
    using assms(1,3) by (rule daterange_no_error)
  have c: "compute_price seasons r d1 d3
             = (case unrounded_total seasons r (Fin 0) d1 d3 of
                  Inl e \<Rightarrow> Inl e
                | Inr t \<Rightarrow> Inr (round2 t))"
    using stop by (simp add: compute_price_def unrounded_total_def split_beta split: sum.splits)
  from days u c show ?thesis by blast
qed

theorem stay_splits_witness:
  "fst (daterange \<lparr>year = 2024, month = 1, day = 1\<rparr> \<lparr>year = 2024, month = 1, day = 3\<rparr>)
     = [\<lparr>year = 2024, month = 1, day = 1\<rparr>, \<lparr>year = 2024, month = 1, day = 2\<rparr>]
   \<and> unrounded_total [all_year] private_room (Fin 0)
        \<lparr>year = 2024, month = 1, day = 1\<rparr> \<lparr>year = 2024, month = 1, day = 2\<rparr> = Inr (Fin (81 / 8))
   \<and> unrounded_total [all_year] private_room (Fin (81 / 8))
        \<lparr>year = 2024, month = 1, day = 2\<rparr> \<lparr>year = 2024, month = 1, day = 3\<rparr> = Inr (Fin (81 / 4))
   \<and> unrounded_total [all_year] private_room (Fin 0)
        \<lparr>year = 2024, month = 1, day = 1\<rparr> \<lparr>year = 2024, month = 1, day = 3\<rparr> = Inr (Fin (81 / 4))
   \<and> compute_price [all_year] private_room
        \<lparr>year = 2024, month = 1, day = 1\<rparr> \<lparr>year = 2024, month = 1, day = 3\<rparr> = Inr (Fin (81 / 4))"
proof -
  let ?a = "\<lparr>year = 2024, month = 1, day = 1\<rparr>"
  let ?b = "\<lparr>year = 2024, month = 1, day = 2\<rparr>"
  let ?c = "\<lparr>year = 2024, month = 1, day = 3\<rparr>"
  have lt: "date_lt ?a ?b" "date_lt ?b ?c" by (simp_all add: date_lt_def)
  note t = stay_splits [OF january_valid lt, of "[all_year]" private_room]
  have u1: "unrounded_total [all_year] private_room (Fin 0) ?a ?b = Inr (Fin (81 / 8))"
    by (simp add: unrounded_total_def january_days all_year_matches january_valid all_year_rate
        private_room_multiplier one_night_total)
  have u2: "unrounded_total [all_year] private_room (Fin (81 / 8)) ?b ?c = Inr (Fin (81 / 4))"
    by (simp add: unrounded_total_def january_days all_year_matches january_valid all_year_rate
        private_room_multiplier one_night_total two_nights_total)
  from t have d: "fst (daterange ?a ?c) = [?a, ?b]" by (simp add: january_days)
  from t u1 u2 have u: "unrounded_total [all_year] private_room (Fin 0) ?a ?c = Inr (Fin (81 / 4))"
    by simp
  from t u have c: "compute_price [all_year] private_room ?a ?c = Inr (Fin (81 / 4))"
    by (simp add: two_nights_rounded del: round2.simps)
  from d u1 u2 u c show ?thesis by blast
qed

text \<open>
  C3 as stated fails because each price is rounded: at the rate 10.125 and the multiplier
  1.0, two nights cost \<open>round(20.25, 2) = 20.25\<close>, while each single night costs
  \<open>round(10.125, 2) = 10.12\<close> (the tie goes to the even digit) and the two prices add
  up to 20.24.
\<close>

theorem stay_additivity_counterexample:
  "compute_price [all_year] private_room
     \<lparr>year = 2024, month = 1, day = 1\<rparr> \<lparr>year = 2024, month = 1, day = 3\<rparr> = Inr (Fin (81 / 4))
   \<and> compute_price [all_year] private_room
        \<lparr>year = 2024, month = 1, day = 1\<rparr> \<lparr>year = 2024, month = 1, day = 2\<rparr>
        = Inr (Fin (5697053528623677 / 562949953421312))
   \<and> compute_price [all_year] private_room
        \<lparr>year = 2024, month = 1, day = 2\<rparr> \<lparr>year = 2024, month = 1, day = 3\<rparr>
        = Inr (Fin (5697053528623677 / 562949953421312))
   \<and> fadd (Fin (5697053528623677 / 562949953421312)) (Fin (5697053528623677 / 562949953421312))
        = Fin (5697053528623677 / 281474976710656)
   \<and> Fin (5697053528623677 / 281474976710656) \<noteq> Fin (81 / 4)"
proof -
  have d: "Fin (5697053528623677 / 281474976710656) \<noteq> Fin (81 / 4)" by simp
  from all_year_two_nights all_year_one_night rounded_sum d show ?thesis by blast
qed


section \<open>Longer stays cost no less\<close>

lemma settled_zero: "settled (Fin 0)"
  by (simp add: settled_def round_nearest_def)

lemma to_double_cases:
  obtains "2 powi 1024 \<le> round_nearest x" "to_double x = PInf"
  | "round_nearest x \<le> - (2 powi 1024)" "to_double x = NInf"
  | "\<not> 2 powi 1024 \<le> round_nearest x" "\<not> round_nearest x \<le> - (2 powi 1024)"
    "to_double x = Fin (round_nearest x)"
  by (cases "2 powi 1024 \<le> round_nearest x"; cases "round_nearest x \<le> - (2 powi 1024)")
    (simp_all add: to_double_def)

lemma to_double_settled:
  assumes "0 \<le> x"
  shows "settled (to_double x)"
proof -
  have nn: "0 \<le> round_nearest x" using assms by (rule rnd_nonneg)
  have "0 < (2::rat) powi 1024" by (rule p2_pos)
  with nn have "\<not> round_nearest x \<le> - (2 powi 1024)" by linarith
  then show ?thesis using nn
    by (cases x rule: to_double_cases) (simp_all add: settled_def rnd_idem)
qed

lemma to_double_mono:
  assumes "x \<le> y"
  shows "fle (to_double x) (to_double y)"
proof -
  have m: "round_nearest x \<le> round_nearest y" using assms by (rule rnd_mono)
  have "0 < (2::rat) powi 1024" by (rule p2_pos)
  then show ?thesis
    using m by (cases x rule: to_double_cases; cases y rule: to_double_cases) auto
qed

lemma fle_settled_refl: "settled t \<Longrightarrow> fle t t"
  by (cases t) (simp_all add: settled_def)

lemma fle_settled_trans:
  "settled a \<Longrightarrow> settled b \<Longrightarrow> settled c \<Longrightarrow> fle a b \<Longrightarrow> fle b c \<Longrightarrow> fle a c"
  by (cases a; cases b; cases c) (simp_all add: settled_def)

lemma fmul_settled:
  assumes "0 \<le> a" "0 \<le> b"
  shows "settled (fmul (Fin a) (Fin b))"
  using assms by (simp add: to_double_settled)

lemma fadd_settled:
  assumes "settled t" "settled p"
  shows "settled (fadd t p) \<and> fle t (fadd t p)"
proof (cases t)
  case (Fin x)
  with assms(1) have x: "0 \<le> x" "round_nearest x = x" by (simp_all add: settled_def)
  show ?thesis
  proof (cases p)
    case p: (Fin y)
    with assms(2) have y: "0 \<le> y" by (simp add: settled_def)
    have s: "settled (to_double (x + y))" using x(1) y by (intro to_double_settled) simp
    have "fle (to_double x) (to_double (x + y))" using y by (intro to_double_mono) simp
    moreover have "to_double x = Fin x \<or> to_double x = PInf"
      using x to_double_settled [of x] by (cases x rule: to_double_cases) (auto simp: settled_def)
    ultimately have "fle (Fin x) (to_double (x + y))"
      using s by (cases "to_double (x + y)") (auto simp: settled_def)
    with s show ?thesis by (simp add: Fin p)
  next
    case PInf
    then show ?thesis by (simp add: Fin settled_def)
  next
    case NInf
    with assms(2) show ?thesis by (simp add: settled_def)
  next
    case NaN
    with assms(2) show ?thesis by (simp add: settled_def)
  qed
next
  case PInf
  with assms(2) show ?thesis by (cases p) (simp_all add: settled_def)
next
  case NInf
  with assms(1) show ?thesis by (simp add: settled_def)
next
  case NaN
  with assms(1) show ?thesis by (simp add: settled_def)
qed

lemma round2_mono:
  assumes "settled a" "settled b" "fle a b"
  shows "fle (round2 a) (round2 b)"
proof (cases a)
  case a: (Fin x)
  show ?thesis
  proof (cases b)
    case b: (Fin y)
    with a assms(3) have "x \<le> y" by simp
    then have "x * 100 \<le> y * 100" by simp
    then have "round_half_even (x * 100) \<le> round_half_even (y * 100)" by (rule rhe_mono)
    then have "(of_int (round_half_even (x * 100)) :: rat) / 100 \<le> of_int (round_half_even (y * 100)) / 100"
      by (simp add: divide_right_mono)
    then show ?thesis unfolding a b round2.simps by (rule to_double_mono)
  next
    case PInf
    have "to_double z \<noteq> NaN" for z by (cases z rule: to_double_cases) simp_all
    then have "fle (to_double z) PInf" for z by (cases "to_double z") simp_all
    then show ?thesis by (simp add: a PInf)
  next
    case NInf
    with assms(2) show ?thesis by (simp add: settled_def)
  next
    case NaN
    with assms(2) show ?thesis by (simp add: settled_def)
  qed
next
  case PInf
  with assms(2,3) show ?thesis by (cases b) (simp_all add: settled_def)
next
  case NInf
  with assms(1) show ?thesis by (simp add: settled_def)
next
  case NaN
  with assms(1) show ?thesis by (simp add: settled_def)
qed

lemma season_for_day_member:
  "season_for_day d seasons = Inr (Some s) \<Longrightarrow> s \<in> set seasons"
  by (induction seasons) (auto split: sum.splits bool.splits)

lemma base_rate_nonneg:
  assumes "\<forall>s \<in> set seasons. \<forall>x. rate s = Some x \<longrightarrow> (\<exists>q. x = Fin q \<and> 0 \<le> q)"
    and "season_for_day d seasons = Inr so"
  shows "\<exists>q. base_rate so = Fin q \<and> 0 \<le> q"
proof (cases so)
  case None
  then show ?thesis by (simp add: base_rate_def)
next
  case (Some s)
  with assms(2) have "s \<in> set seasons" by (simp add: season_for_day_member)
  with assms(1) have "\<forall>x. rate s = Some x \<longrightarrow> (\<exists>q. x = Fin q \<and> 0 \<le> q)" by blast
  then show ?thesis by (cases "rate s") (auto simp: base_rate_def Some)
qed

lemma price_days_mono:
  assumes "\<forall>s \<in> set seasons. \<forall>x. rate s = Some x \<longrightarrow> (\<exists>q. x = Fin q \<and> 0 \<le> q)"
    and "room_multiplier r = Fin m" "0 \<le> m"
  shows "settled t \<Longrightarrow> price_days seasons r t ds = Inr t' \<Longrightarrow> settled t' \<and> fle t t'"
proof (induction ds arbitrary: t)
  case Nil
  then show ?case by (simp add: fle_settled_refl)
next
  case (Cons d ds)
  from Cons.prems(2) obtain so where so: "season_for_day d seasons = Inr so"
    and rest: "price_days seasons r (fadd t (fmul (base_rate so) (Fin m))) ds = Inr t'"
    by (auto simp: assms(2) split: sum.splits)
  from base_rate_nonneg [OF assms(1) so] obtain q where q: "base_rate so = Fin q" "0 \<le> q"
    by blast
  have p: "settled (fmul (Fin q) (Fin m))" using q(2) assms(3) by (rule fmul_settled)
  from fadd_settled [OF Cons.prems(1) p]
  have s: "settled (fadd t (fmul (Fin q) (Fin m)))" and le: "fle t (fadd t (fmul (Fin q) (Fin m)))"
    by simp_all
  from Cons.IH [OF s] rest have "settled t'" "fle (fadd t (fmul (Fin q) (Fin m))) t'"
    by (simp_all add: q)
  with Cons.prems(1) s le show ?case by (blast intro: fle_settled_trans)
qed

text \<open>
  C7. For a room whose multiplier is finite and not negative, seasons whose rates are
  finite and not negative, and dates \<open>check_in < check_out \<le> check_out'\<close>: when the
  price of the longer stay \<open>[check_in, check_out')\<close> is computed, the price of the
  shorter stay \<open>[check_in, check_out)\<close> is computed too and is less than or equal to
  it. The running total never decreases because each rounded sum is at least the total
  it started from, and rounding to two places keeps the order.
\<close>

theorem price_monotone:
  assumes "valid_date check_in" and "valid_date check_out" and "valid_date check_out'"
    and "date_lt check_in check_out" and "date_le check_out check_out'"
    and "room_multiplier r = Fin m" and "0 \<le> m"
    and "\<forall>s \<in> set seasons. \<forall>x. rate s = Some x \<longrightarrow> (\<exists>q. x = Fin q \<and> 0 \<le> q)"
    and "compute_price seasons r check_in check_out' = Inr t'"
  shows "\<exists>t. compute_price seasons r check_in check_out = Inr t \<and> fle t t'"
proof -
  let ?xs = "fst (daterange check_in check_out)"
  let ?ys = "fst (daterange check_out check_out')"
  have cp: "compute_price seasons r a b
      = (case price_days seasons r (Fin 0) (fst (daterange a b)) of
           Inl e \<Rightarrow> Inl e | Inr tot \<Rightarrow> Inr (round2 tot))"
    if "valid_date a" "valid_date b" for a b
    using daterange_no_error [OF that]
    by (simp add: compute_price_def split_beta split: sum.splits)
  have days: "fst (daterange check_in check_out') = ?xs @ ?ys"
    using assms(1,2) date_lt_imp_le [OF assms(4)] assms(5) by (rule daterange_split)
  from assms(9) obtain u' where u': "price_days seasons r (Fin 0) (?xs @ ?ys) = Inr u'"
    and t': "t' = round2 u'"
    by (auto simp: cp assms(1,3) days split: sum.splits)
  from u' obtain u where u: "price_days seasons r (Fin 0) ?xs = Inr u"
    and rest: "price_days seasons r u ?ys = Inr u'"
    by (auto simp: price_days_append split: sum.splits)
  note pm = price_days_mono [OF assms(8,6,7)]
  from pm [OF settled_zero u] have su: "settled u" by simp
  from pm [OF su rest] have su': "settled u'" and le: "fle u u'" by simp_all
  have "compute_price seasons r check_in check_out = Inr (round2 u)"
    by (simp add: cp assms(1,2) u)
  moreover have "fle (round2 u) t'" unfolding t' using su su' le by (rule round2_mono)
  ultimately show ?thesis by blast
qed

theorem price_monotone_witness:
  "compute_price [all_year] private_room
     \<lparr>year = 2024, month = 1, day = 1\<rparr> \<lparr>year = 2024, month = 1, day = 3\<rparr> = Inr (Fin (81 / 4))
   \<and> (\<exists>t. compute_price [all_year] private_room
              \<lparr>year = 2024, month = 1, day = 1\<rparr> \<lparr>year = 2024, month = 1, day = 2\<rparr> = Inr t
            \<and> fle t (Fin (81 / 4)))"
proof -
  have lt: "date_lt \<lparr>year = 2024, month = 1, day = 1\<rparr> \<lparr>year = 2024, month = 1, day = 2\<rparr>"
    by (simp add: date_lt_def)
  have le: "date_le \<lparr>year = 2024, month = 1, day = 2\<rparr> \<lparr>year = 2024, month = 1, day = 3\<rparr>"
    by (simp add: date_le_def)
  have m: "(0::rat) \<le> 1" by simp
  have "\<exists>q::rat. Fin (81 / 8) = Fin q \<and> 0 \<le> q" by (intro exI [of _ "81 / 8"]) simp
  then have rates: "\<forall>s \<in> set [all_year]. \<forall>x. rate s = Some x \<longrightarrow> (\<exists>q. x = Fin q \<and> 0 \<le> q)"
    by (auto simp: all_year_def)
  from price_monotone [OF january_valid(1) january_valid(2) january_valid(3) lt le
      private_room_multiplier m rates all_year_two_nights] all_year_two_nights
  show ?thesis by blast
qed


section \<open>Season boundaries that are not dates of every year\<close>

text \<open>
  When every boundary of every season is a date in every year, no constructor call of
  the lookup raises, and pricing returns a value for every pair of dates.
\<close>

lemma mk_date_every_year:
  assumes "in_every_year mo dy" "1 \<le> y" "y \<le> 9999"
  shows "\<exists>b. mk_date y mo dy = Inr b"
  using assms
  by (auto simp: in_every_year_def mk_date_def c_int_def valid_date_def days_in_month_def is_leap_def
      split: option.splits if_splits)

lemma season_for_day_returns:
  assumes "\<forall>s \<in> set seasons. in_every_year (start_month s) (start_day s)
              \<and> in_every_year (end_month s) (end_day s)"
    and "valid_date d"
  shows "\<exists>so. season_for_day d seasons = Inr so"
  using assms(1)
proof (induction seasons)
  case Nil
  then show ?case by simp
next
  case (Cons s seasons)
  have y: "1 \<le> year d" "year d \<le> 9999" using assms(2) by (simp_all add: valid_date_def)
  from Cons.prems obtain st en where
    "mk_date (year d) (start_month s) (start_day s) = Inr st"
    "mk_date (year d) (end_month s) (end_day s) = Inr en"
    using mk_date_every_year [OF _ y] by (metis list.set_intros(1))
  then obtain b where "season_matches d s = Inr b"
    by (cases "date_lt en st") (simp_all add: season_matches_def)
  moreover from Cons obtain so where "season_for_day d seasons = Inr so" by auto
  ultimately show ?case by (cases b) simp_all
qed

lemma price_days_returns:
  assumes "\<forall>s \<in> set seasons. in_every_year (start_month s) (start_day s)
              \<and> in_every_year (end_month s) (end_day s)"
  shows "\<forall>d \<in> set ds. valid_date d \<Longrightarrow> \<exists>t'. price_days seasons r t ds = Inr t'"
proof (induction ds arbitrary: t)
  case Nil
  then show ?case by simp
next
  case (Cons d ds)
  then have "valid_date d" by simp
  with assms obtain so where "season_for_day d seasons = Inr so"
    using season_for_day_returns by blast
  with Cons show ?case by simp
qed

lemma compute_price_returns:
  assumes "\<forall>s \<in> set seasons. in_every_year (start_month s) (start_day s)
              \<and> in_every_year (end_month s) (end_day s)"
    and "valid_date check_in" and "valid_date check_out"
  shows "\<exists>t. compute_price seasons r check_in check_out = Inr t"
proof -
  have "\<forall>d \<in> set (fst (daterange check_in check_out)). valid_date d"
    using daterange_set [OF assms(2,3)] by simp
  with price_days_returns [OF assms(1)] obtain t
    where "price_days seasons r (Fin 0) (fst (daterange check_in check_out)) = Inr t" by blast
  then show ?thesis
    using daterange_no_error [OF assms(2,3)]
    by (simp add: compute_price_def split_beta)
qed

text \<open>
  C2. The claim is that pricing returns a value for every season list whose months lie
  in 1..12 and whose days lie in 1..31. The code builds each boundary as a date of the
  year of the day it prices, so a boundary such as 29 February raises \<^verbatim>\<open>ValueError\<close>
  in a common year: with the season 1 December to 29 February, the night of 1 March 2023
  raises, while the night of 1 March 2024 is priced (at 0.0, no season covering it).
\<close>

theorem pricing_raises_for_29_february:
  "compute_price [winter_term] private_room
     \<lparr>year = 2023, month = 3, day = 1\<rparr> \<lparr>year = 2023, month = 3, day = 2\<rparr> = Inl ValueError
   \<and> compute_price [winter_term] private_room
        \<lparr>year = 2024, month = 3, day = 1\<rparr> \<lparr>year = 2024, month = 3, day = 2\<rparr> = Inr (Fin 0)"
proof -
  have d23: "daterange \<lparr>year = 2023, month = 3, day = 1\<rparr> \<lparr>year = 2023, month = 3, day = 2\<rparr>
      = ([\<lparr>year = 2023, month = 3, day = 1\<rparr>], None)"
    by (rule daterange_one_night) (simp add: next_day_def days_in_month_def)
  have d24: "daterange \<lparr>year = 2024, month = 3, day = 1\<rparr> \<lparr>year = 2024, month = 3, day = 2\<rparr>
      = ([\<lparr>year = 2024, month = 3, day = 1\<rparr>], None)"
    by (rule daterange_one_night) (simp add: next_day_def days_in_month_def)
  have s23: "season_matches \<lparr>year = 2023, month = 3, day = 1\<rparr> winter_term = Inl ValueError"
    by (simp add: winter_term_def concrete_season_simps)
  have s24: "season_matches \<lparr>year = 2024, month = 3, day = 1\<rparr> winter_term = Inr False"
    by (simp add: winter_term_def concrete_season_simps)
  have a: "compute_price [winter_term] private_room
     \<lparr>year = 2023, month = 3, day = 1\<rparr> \<lparr>year = 2023, month = 3, day = 2\<rparr> = Inl ValueError"
    by (simp add: compute_price_def d23 s23)
  have b: "compute_price [winter_term] private_room
        \<lparr>year = 2024, month = 3, day = 1\<rparr> \<lparr>year = 2024, month = 3, day = 2\<rparr> = Inr (Fin 0)"
    by (simp add: compute_price_def d24 s24 base_rate_def private_room_multiplier
        round_half_even_def)
  from a b show ?thesis by blast
qed

section \<open>Quoting and booking\<close>

lemma parse_sample:
  "parse_date ''2024-01-01'' = Inr \<lparr>year = 2024, month = 1, day = 1\<rparr>"
  "parse_date ''2024-01-03'' = Inr \<lparr>year = 2024, month = 1, day = 3\<rparr>"
  "parse_date ''2024-1-3'' = Inr \<lparr>year = 2024, month = 1, day = 3\<rparr>"
  "parse_date ''2024-02-30'' = Inl ValueError"
  "parse_date ''2024-01-03x'' = Inl ValueError"
  "parse_date ''01/03/2024'' = Inl ValueError"
  by (simp_all add: parse_date_def is_digit_def digit_val_def valid_date_def days_in_month_def
      is_leap_def)

text \<open>
  C10. For the same payload, store and seasons, the booking handler fails exactly when
  the quote handler fails, with the same exception (room not found, a date that does
  not parse, check-out not after check-in, guests outside 1..capacity, or an exception
  of the pricing); and when the quote handler returns a quote, the booking handler
  returns a response with the same total price, and stores one booking with that total
  price and the payload's room, dates and guests.
\<close>

theorem booking_prices_as_quote:
  "(case get_quote db payload of
      Inl e \<Rightarrow> create_booking db inserted_id now1 now2 payload = Inl e
    | Inr q \<Rightarrow>
        (\<exists>resp doc. create_booking db inserted_id now1 now2 payload
             = Inr (resp, db\<lparr>store_bookings := store_bookings db @ [doc]\<rparr>)
           \<and> resp_total_price resp = quote_total_price q
           \<and> booking_total_price doc = quote_total_price q
           \<and> booking_room_id doc = quote_room_id q
           \<and> booking_check_in doc = quote_check_in q
           \<and> booking_check_out doc = quote_check_out q
           \<and> booking_guests doc = quote_guests q))"
  by (auto simp: get_quote_def create_booking_def Let_def split: option.splits sum.splits)

theorem booking_prices_as_quote_witness:
  "quote_total_price (projr (get_quote sample_store sample_request)) = Fin (81 / 4)
   \<and> resp_total_price (fst (projr (create_booking sample_store ''b1'' 7 8 sample_request)))
        = Fin (81 / 4)
   \<and> get_quote sample_store (sample_request\<lparr>req_guests := 3\<rparr>)
        = Inl (HTTPException 400 ''Invalid number of guests for this room'')
   \<and> create_booking sample_store ''b1'' 7 8 (sample_request\<lparr>req_guests := 3\<rparr>)
        = Inl (HTTPException 400 ''Invalid number of guests for this room'')"
proof -
  have q: "get_quote sample_store sample_request
      = Inr \<lparr>quote_room_id = ''r1'', quote_check_in = ''2024-01-01'',
             quote_check_out = ''2024-01-03'', quote_guests = 2,
             quote_total_price = Fin (81 / 4), quote_currency = ''EUR''\<rparr>"
    by (simp add: get_quote_def sample_store_def sample_request_def private_room_def [symmetric]
        parse_sample date_le_def room_capacity_def all_year_two_nights)
       (simp add: private_room_def room_capacity_def)
  have g: "get_quote sample_store (sample_request\<lparr>req_guests := 3\<rparr>)
        = Inl (HTTPException 400 ''Invalid number of guests for this room'')"
    by (simp add: get_quote_def sample_store_def sample_request_def private_room_def
        parse_sample date_le_def room_capacity_def)
  from booking_prices_as_quote [where db = sample_store and payload = sample_request
      and inserted_id = "''b1''" and ?now1.0 = 7 and ?now2.0 = 8] q
  have b: "resp_total_price (fst (projr (create_booking sample_store ''b1'' 7 8 sample_request)))
        = Fin (81 / 4)"
    by auto
  from booking_prices_as_quote [where db = sample_store
      and payload = "sample_request\<lparr>req_guests := 3\<rparr>"
      and inserted_id = "''b1''" and ?now1.0 = 7 and ?now2.0 = 8] g
  have c: "create_booking sample_store ''b1'' 7 8 (sample_request\<lparr>req_guests := 3\<rparr>)
        = Inl (HTTPException 400 ''Invalid number of guests for this room'')"
    by simp
  from q g b c show ?thesis by simp
qed

end
